theory Spec2Isabelle
  imports Main "HOL-Library.Sublist" "HOL-Library.AList"
begin

section \<open>Python strings\<close>

text \<open>
  A Python \<open>str\<close> is modelled as a HOL \<open>string\<close>. A HOL character is one of 256 values, read
  here as the code points 0 to 255 (ASCII and Latin-1); the functions below are what
  \<open>str.isspace\<close>, \<open>str.strip\<close> and \<open>str.lower\<close> do on that range, which is closed under all
  three. \<open>x in y\<close> on strings is \<^const>\<open>sublist\<close>, \<open>y.startswith(x)\<close> is \<^const>\<open>prefix\<close> and
  \<open>y.endswith(x)\<close> is \<^const>\<open>suffix\<close>.
\<close>

definition isspace :: "char \<Rightarrow> bool" where
  "isspace c =
     (let n = of_char c :: nat
      in (9 \<le> n \<and> n \<le> 13) \<or> (28 \<le> n \<and> n \<le> 32) \<or> n = 133 \<or> n = 160)"

definition strip :: "string \<Rightarrow> string" where
  "strip s = rev (dropWhile isspace (rev (dropWhile isspace s)))"

definition lower_char :: "char \<Rightarrow> char" where
  "lower_char c =
     (let n = of_char c :: nat
      in if (65 \<le> n \<and> n \<le> 90) \<or> (192 \<le> n \<and> n \<le> 222 \<and> n \<noteq> 215)
         then char_of (n + 32) else c)"

definition lower :: "string \<Rightarrow> string" where
  "lower s = map lower_char s"

section \<open>Regular expressions\<close>

text \<open>
  The patterns of the program use character classes, concatenation, \<open>?\<close>, \<open>+\<close>, \<open>*\<close> and
  \<open>{2,}\<close>, between \<open>^\<close> and \<open>$\<close>. \<open>re.match(p, s) is not None\<close> only asks whether a match
  exists, so the matcher decides membership by derivatives; \<open>re_match\<close> adds what \<open>$\<close> allows:
  one newline after the match, at the very end of the string.
\<close>

datatype rexp =
    Nul
  | Eps
  | Cls "char \<Rightarrow> bool"
  | Cat rexp rexp
  | Alt rexp rexp
  | Rep rexp

fun nullable :: "rexp \<Rightarrow> bool" where
  "nullable Nul = False"
| "nullable Eps = True"
| "nullable (Cls P) = False"
| "nullable (Cat r s) = (nullable r \<and> nullable s)"
| "nullable (Alt r s) = (nullable r \<or> nullable s)"
| "nullable (Rep r) = True"

fun rderiv :: "char \<Rightarrow> rexp \<Rightarrow> rexp" where
  "rderiv c Nul = Nul"
| "rderiv c Eps = Nul"
| "rderiv c (Cls P) = (if P c then Eps else Nul)"
| "rderiv c (Cat r s) =
     (if nullable r then Alt (Cat (rderiv c r) s) (rderiv c s) else Cat (rderiv c r) s)"
| "rderiv c (Alt r s) = Alt (rderiv c r) (rderiv c s)"
| "rderiv c (Rep r) = Cat (rderiv c r) (Rep r)"

fun rmatch :: "rexp \<Rightarrow> string \<Rightarrow> bool" where
  "rmatch r [] = nullable r"
| "rmatch r (c # cs) = rmatch (rderiv c r) cs"

definition re_match :: "rexp \<Rightarrow> string \<Rightarrow> bool" where
  "re_match r s =
     (rmatch r s \<or> (s \<noteq> [] \<and> last s = CHR 0x0A \<and> rmatch r (butlast s)))"

fun lit :: "string \<Rightarrow> rexp" where
  "lit [] = Eps"
| "lit (c # cs) = Cat (Cls (\<lambda>d. d = c)) (lit cs)"

definition opt :: "rexp \<Rightarrow> rexp" where
  "opt r = Alt r Eps"

definition rep1 :: "rexp \<Rightarrow> rexp" where
  "rep1 r = Cat r (Rep r)"

definition rep2 :: "rexp \<Rightarrow> rexp" where
  "rep2 r = Cat r (Cat r (Rep r))"

definition in_range :: "char \<Rightarrow> char \<Rightarrow> char \<Rightarrow> bool" where
  "in_range lo hi c = ((of_char lo :: nat) \<le> of_char c \<and> (of_char c :: nat) \<le> of_char hi)"

definition alpha :: "char \<Rightarrow> bool" where
  "alpha c = (in_range CHR ''a'' CHR ''z'' c \<or> in_range CHR ''A'' CHR ''Z'' c)"

definition alnum :: "char \<Rightarrow> bool" where
  "alnum c = (alpha c \<or> in_range CHR ''0'' CHR ''9'' c)"

text \<open>The classes \<open>[a-zA-Z0-9._%+-]\<close>, \<open>[a-zA-Z0-9.-]\<close> and \<open>[a-zA-Z0-9-]\<close>.\<close>

definition email_local_char :: "char \<Rightarrow> bool" where
  "email_local_char c = (alnum c \<or> c \<in> set ''._%+-'')"

definition email_domain_char :: "char \<Rightarrow> bool" where
  "email_domain_char c = (alnum c \<or> c \<in> set ''.-'')"

definition host_char :: "char \<Rightarrow> bool" where
  "host_char c = (alnum c \<or> c = CHR ''-'')"

section \<open>Core detection functions\<close>

datatype content_type = Empty | Email | LinkedIn | Website | Text | Unknown

text \<open>
  The program's labels \<open>"empty"\<close>, \<open>"email"\<close>, \<open>"linkedin"\<close>, \<open>"website"\<close>, \<open>"text"\<close> and
  \<open>"unknown"\<close>, in that order.

  \<^verbatim>\<open>^[a-zA-Z0-9._%+-]+@[a-zA-Z0-9.-]+\.[a-zA-Z]{2,}$\<close>
\<close>

definition email_pattern :: rexp where
  "email_pattern =
     Cat (rep1 (Cls email_local_char))
    (Cat (lit ''@'')
    (Cat (rep1 (Cls email_domain_char))
    (Cat (lit ''.'')
         (rep2 (Cls alpha)))))"

definition is_valid_email :: "string \<Rightarrow> bool" where
  "is_valid_email text' = re_match email_pattern (strip text')"

definition common_domains :: "string list" where
  "common_domains =
     [''.com'', ''.org'', ''.net'', ''.edu'', ''.gov'', ''.io'', ''.co'', ''.info'', ''.in'',
      ''.us'', ''.uk'', ''.ca'', ''.au'', ''.de'', ''.fr'', ''.jp'', ''.cn'', ''.br'', ''.ru'',
      ''.mx'', ''.es'', ''.it'', ''.nl'', ''.se'', ''.no'', ''.dk'', ''.fi'', ''.pl'', ''.ch'']"

text \<open>
  \<^verbatim>\<open>^(https?://)?(www\.)?[a-zA-Z0-9-]+\.[a-zA-Z]{2,}(?:\.[a-zA-Z]{2,})?(?:/\S*)?$\<close>
\<close>

definition website_pattern :: rexp where
  "website_pattern =
     Cat (opt (Cat (lit ''http'') (Cat (opt (lit ''s'')) (lit ''://''))))
    (Cat (opt (lit ''www.''))
    (Cat (rep1 (Cls host_char))
    (Cat (lit ''.'')
    (Cat (rep2 (Cls alpha))
    (Cat (opt (Cat (lit ''.'') (rep2 (Cls alpha))))
         (opt (Cat (lit ''/'') (Rep (Cls (\<lambda>c. \<not> isspace c))))))))))"

definition is_valid_website :: "string \<Rightarrow> bool" where
  "is_valid_website text' =
     (let t = lower (strip text')
      in if t = [] \<or> CHR ''.'' \<notin> set t then False
         else re_match website_pattern t \<or> list_ex (\<lambda>ext. sublist ext t) common_domains)"

definition is_valid_linkedin :: "string \<Rightarrow> bool" where
  "is_valid_linkedin text' = sublist ''linkedin.com'' (lower (strip text'))"

definition format_website_url :: "string \<Rightarrow> string" where
  "format_website_url url =
     (let u = strip url
      in if \<not> (prefix ''http://'' u \<or> prefix ''https://'' u) then ''https://'' @ u else u)"

definition detect_content_type :: "string \<Rightarrow> content_type" where
  "detect_content_type text' =
     (let t = strip text'
      in if t = [] then Empty
         else if is_valid_email t then Email
         else if is_valid_linkedin t then LinkedIn
         else if is_valid_website t then Website
         else Text)"

section \<open>Worksheet columns\<close>

text \<open>
  A cell holds text or nothing (the value of an empty cell is \<open>None\<close>), an optional hyperlink
  target and a font; cells holding numbers or dates are not part of this model. \<open>Font(color=c, underline='single')\<close> sets two attributes of a font and
  leaves the others at their defaults. One column of the worksheet is its row extent
  \<open>ws.max_row\<close> and the cell at every row number: \<open>ws[f'{column_letter}{row}']\<close> gives a cell
  for any row, an empty one where the sheet stores none.
\<close>

record font =
  color :: "string option"
  underline :: "string option"

record cell =
  cell_value :: "string option"
  hyperlink :: "string option"
  cell_font :: font

record worksheet =
  max_row :: nat
  cell_at :: "nat \<Rightarrow> cell"

definition set_cell :: "worksheet \<Rightarrow> nat \<Rightarrow> cell \<Rightarrow> worksheet" where
  "set_cell ws row c = ws\<lparr>cell_at := (cell_at ws)(row := c)\<rparr>"

text \<open>\<^verbatim>\<open>value = str(cell.value).strip() if cell.value else ""\<close>\<close>

definition cell_text :: "cell \<Rightarrow> string" where
  "cell_text c = (case cell_value c of None \<Rightarrow> [] | Some v \<Rightarrow> if v = [] then [] else strip v)"

section \<open>Column analysis\<close>

text \<open>
  \<open>content_types\<close> is a dict: an association list in insertion order, where assigning to a
  key that is present keeps its place. \<open>max(items, key=...)\<close> keeps the first item and
  replaces it only by a later item whose count is strictly larger.
\<close>

definition dict_get :: "('k \<times> 'v) list \<Rightarrow> 'k \<Rightarrow> 'v \<Rightarrow> 'v" where
  "dict_get d k dflt = (case map_of d k of None \<Rightarrow> dflt | Some v \<Rightarrow> v)"

definition tally_row ::
  "worksheet \<Rightarrow> (content_type \<times> nat) list \<Rightarrow> nat \<Rightarrow> (content_type \<times> nat) list" where
  "tally_row ws content_types row =
     (let v = cell_text (cell_at ws row)
      in if v \<noteq> [] then
           (let ct = detect_content_type v
            in AList.update ct (dict_get content_types ct 0 + 1) content_types)
         else content_types)"

definition max_by_count :: "('k \<times> nat) \<Rightarrow> ('k \<times> nat) list \<Rightarrow> 'k \<times> nat" where
  "max_by_count first rest = foldl (\<lambda>best it. if snd best < snd it then it else best) first rest"

definition analyze_column :: "worksheet \<Rightarrow> content_type \<times> nat" where
  "analyze_column ws =
     (let sample_size = min 100 (max_row ws);
          content_types = foldl (tally_row ws) [] [1..<sample_size + 1]
      in case content_types of
           [] \<Rightarrow> (Unknown, 0)
         | first # rest \<Rightarrow> max_by_count first rest)"

section \<open>Column conversion\<close>

record config =
  hyperlink_color :: string
  max_rows_to_process :: int

datatype py_error = ZeroDivisionError | NotADirectoryError | PermissionError

datatype console_event =
    Print_profile content_type nat
  | Bar_open int
  | Bar_update nat
  | Bar_close
  | Print_processing int
  | Print_percent int nat int

text \<open>
  \<open>TQDM_AVAILABLE\<close> is a parameter of the model: whether the import of tqdm succeeded.
  The state of one run of the loop: the worksheet being mutated, the counter, and what the
  progress reporting keeps and prints. \<open>last_progress\<close> exists only on the path without tqdm.
\<close>

record conv_state =
  sheet :: worksheet
  converted_count :: nat
  last_progress :: int
  console :: "console_event list"

definition floordiv :: "int \<Rightarrow> int \<Rightarrow> py_error + int" where
  "floordiv a b = (if b = 0 then Inl ZeroDivisionError else Inr (a div b))"

definition convert_row :: "font \<Rightarrow> nat \<Rightarrow> conv_state \<Rightarrow> conv_state" where
  "convert_row hyperlink_font row s =
     (let c = cell_at (sheet s) row;
          v = cell_text c
      in if v \<noteq> [] then
           (let ct = detect_content_type v
            in if ct = Email then
                 s\<lparr>sheet := set_cell (sheet s) row
                              (c\<lparr>hyperlink := Some (''mailto:'' @ v), cell_font := hyperlink_font\<rparr>),
                   converted_count := converted_count s + 1\<rparr>
               else if ct \<in> set [Website, LinkedIn] then
                 s\<lparr>sheet := set_cell (sheet s) row
                              (c\<lparr>hyperlink := Some (format_website_url v),
                                 cell_font := hyperlink_font\<rparr>),
                   converted_count := converted_count s + 1\<rparr>
               else s)
         else s)"

definition update_progress :: "bool \<Rightarrow> int \<Rightarrow> nat \<Rightarrow> conv_state \<Rightarrow> py_error + conv_state" where
  "update_progress tqdm_available total_rows row s =
     (if tqdm_available then Inr (s\<lparr>console := console s @ [Bar_update 1]\<rparr>)
      else case floordiv (int row * 100) total_rows of
             Inl e \<Rightarrow> Inl e
           | Inr progress \<Rightarrow>
               if last_progress s + 10 \<le> progress
               then Inr (s\<lparr>console := console s @ [Print_percent progress row total_rows],
                          last_progress := progress\<rparr>)
               else Inr s)"

text \<open>A \<open>for\<close> loop whose body may raise: the first error ends the loop.\<close>

fun for_each :: "('a \<Rightarrow> 's \<Rightarrow> py_error + 's) \<Rightarrow> 'a list \<Rightarrow> 's \<Rightarrow> py_error + 's" where
  "for_each body [] s = Inr s"
| "for_each body (x # xs) s =
     (case body x s of Inl e \<Rightarrow> Inl e | Inr s' \<Rightarrow> for_each body xs s')"

definition hyperlink_font_of :: "config \<Rightarrow> font" where
  "hyperlink_font_of cfg = \<lparr>color = Some (hyperlink_color cfg), underline = Some ''single''\<rparr>"

definition total_rows_of :: "config \<Rightarrow> worksheet \<Rightarrow> int" where
  "total_rows_of cfg ws = min (int (max_row ws)) (max_rows_to_process cfg)"

definition convert_column_to_hyperlinks ::
  "bool \<Rightarrow> config \<Rightarrow> worksheet \<Rightarrow> py_error + conv_state" where
  "convert_column_to_hyperlinks tqdm_available cfg ws =
     (let hyperlink_font = hyperlink_font_of cfg;
          (content_type, confidence) = analyze_column ws;
          total_rows = total_rows_of cfg ws;
          s0 = \<lparr>sheet = ws, converted_count = 0, last_progress = 0,
                console = [Print_profile content_type confidence,
                           if tqdm_available then Bar_open total_rows
                           else Print_processing total_rows]\<rparr>
      in case for_each
                (\<lambda>row s. update_progress tqdm_available total_rows row
                            (convert_row hyperlink_font row s))
                [1..<nat (total_rows + 1)] s0 of
           Inl e \<Rightarrow> Inl e
         | Inr s \<Rightarrow> Inr (if tqdm_available then s\<lparr>console := console s @ [Bar_close]\<rparr> else s))"

section \<open>Batch processing\<close>

text \<open>
  The file system and the workbook library are the environment of the program: whether a
  path exists, what \<open>os.listdir\<close> returns or raises, and what the body of the \<open>try\<close> block of
  \<open>process_single_file\<close> (backup, load, convert every column, save) does for a file. An
  outcome \<open>Raises\<close> is an exception derived from \<open>Exception\<close>, the ones \<open>except Exception\<close>
  catches. The batch function is modelled over any per-file function, so that its own
  handler is a branch of the model. Its events are what it logs and prints, and one more:
  \<open>Call_process_single_file\<close> records each call of the per-file function, so that the
  files a run has processed can be read off its events.
\<close>

datatype 'a outcome = Returns 'a | Raises string

record filesystem =
  path_exists :: "string \<Rightarrow> bool"
  listdir :: "string \<Rightarrow> py_error + string list"

datatype batch_event =
    Log_error_folder_not_found string
  | Print_folder_not_found
  | Log_warning_no_files string
  | Print_no_files
  | Found_files nat
  | Print_starting
  | Call_process_single_file string
  | Log_error_failed string
  | Log_error_exception string string
  | Print_error string string
  | Print_batch_progress int nat nat
  | Completed nat nat

record batch_state =
  success_count :: nat
  events :: "batch_event list"

definition process_single_file :: "(string \<Rightarrow> unit outcome) \<Rightarrow> string \<Rightarrow> bool outcome" where
  "process_single_file try_body file_path =
     (case try_body file_path of Returns u \<Rightarrow> Returns True | Raises e \<Rightarrow> Returns False)"

text \<open>\<open>os.path.join\<close> and \<open>os.path.basename\<close> on POSIX paths.\<close>

definition path_join :: "string \<Rightarrow> string \<Rightarrow> string" where
  "path_join a b =
     (if prefix ''/'' b then b
      else if a = [] \<or> suffix ''/'' a then a @ b
      else a @ ''/'' @ b)"

definition basename :: "string \<Rightarrow> string" where
  "basename p = rev (takeWhile (\<lambda>c. c \<noteq> CHR ''/'') (rev p))"

definition is_excel_file :: "string list \<Rightarrow> string \<Rightarrow> bool" where
  "is_excel_file supported_extensions file = list_ex (\<lambda>ext. suffix ext (lower file)) supported_extensions"

definition batch_step ::
  "bool \<Rightarrow> (string \<Rightarrow> bool outcome) \<Rightarrow> nat \<Rightarrow> nat \<times> string \<Rightarrow> batch_state \<Rightarrow> py_error + batch_state"
  where
  "batch_step tqdm_available process n item s =
     (let i = fst item;
          file_path = snd item;
          s1 = s\<lparr>events := events s @ [Call_process_single_file file_path]\<rparr>;
          s2 = (case process file_path of
                  Returns ok \<Rightarrow>
                    if ok then s1\<lparr>success_count := success_count s1 + 1\<rparr>
                    else s1\<lparr>events := events s1 @ [Log_error_failed file_path]\<rparr>
                | Raises e \<Rightarrow>
                    s1\<lparr>events := events s1 @
                         [Log_error_exception file_path e, Print_error (basename file_path) e]\<rparr>)
      in if \<not> tqdm_available then
           (case floordiv ((int i + 1) * 100) (int n) of
              Inl e \<Rightarrow> Inl e
            | Inr progress \<Rightarrow>
                Inr (s2\<lparr>events := events s2 @ [Print_batch_progress progress (i + 1) n]\<rparr>))
         else Inr s2)"

definition batch_process_folder ::
  "bool \<Rightarrow> string list \<Rightarrow> filesystem \<Rightarrow> (string \<Rightarrow> bool outcome) \<Rightarrow> string
     \<Rightarrow> py_error + bool \<times> batch_state" where
  "batch_process_folder tqdm_available supported_extensions fs process folder_path =
     (if \<not> path_exists fs folder_path then
        Inr (False, \<lparr>success_count = 0,
                     events = [Log_error_folder_not_found folder_path, Print_folder_not_found]\<rparr>)
      else case listdir fs folder_path of
        Inl e \<Rightarrow> Inl e
      | Inr files \<Rightarrow>
          (let excel_files =
                 map (path_join folder_path) (filter (is_excel_file supported_extensions) files)
           in if excel_files = [] then
                Inr (False, \<lparr>success_count = 0,
                             events = [Log_warning_no_files folder_path, Print_no_files]\<rparr>)
              else
                (let n = length excel_files;
                     s0 = \<lparr>success_count = 0,
                           events = Found_files n # (if tqdm_available then [] else [Print_starting])\<rparr>
                 in case for_each (batch_step tqdm_available process n)
                           (zip [0..<n] excel_files) s0 of
                      Inl e \<Rightarrow> Inl e
                    | Inr s \<Rightarrow>
                        Inr (0 < success_count s,
                             s\<lparr>events := events s @ [Completed (success_count s) n]\<rparr>))))"

section \<open>Notions of the specification\<close>

text \<open>A string that \<open>strip\<close> leaves alone: empty, or with no whitespace at either end.\<close>

definition trimmed :: "string \<Rightarrow> bool" where
  "trimmed s = (s = [] \<or> (\<not> isspace (hd s) \<and> \<not> isspace (last s)))"

text \<open>The language of a pattern: the strings it matches in full.\<close>

inductive_set star :: "string set \<Rightarrow> string set" for A :: "string set" where
  star_Nil: "[] \<in> star A"
| star_app: "u \<in> A \<Longrightarrow> v \<in> star A \<Longrightarrow> u @ v \<in> star A"

fun lang :: "rexp \<Rightarrow> string set" where
  "lang Nul = {}"
| "lang Eps = {[]}"
| "lang (Cls P) = {[c] | c. P c}"
| "lang (Cat r s) = {u @ v | u v. u \<in> lang r \<and> v \<in> lang s}"
| "lang (Alt r s) = lang r \<union> lang s"
| "lang (Rep r) = star (lang r)"

text \<open>
  The shape of an address in words: a local part of alphanumerics and \<open>. _ % + -\<close>, then
  \<open>@\<close>, then a domain of alphanumerics, hyphens and dots, then a dot and at least two letters.
\<close>

definition email_shape :: "string \<Rightarrow> bool" where
  "email_shape s =
     (\<exists>local_part domain tld.
        s = local_part @ ''@'' @ domain @ ''.'' @ tld \<and>
        local_part \<noteq> [] \<and> list_all email_local_char local_part \<and>
        domain \<noteq> [] \<and> list_all email_domain_char domain \<and>
        2 \<le> length tld \<and> list_all alpha tld)"

text \<open>
  The shape of a website in words: an optional scheme \<open>http://\<close> or \<open>https://\<close>, an
  optional \<open>www.\<close>, a host of alphanumerics and hyphens, a dot and at least two letters,
  optionally a second dot with at least two letters, and optionally a path: a slash and
  anything without whitespace. The website heuristic: the value contains a dot, and it has
  that shape or contains one of the known domain extensions.
\<close>

definition website_shape :: "string \<Rightarrow> bool" where
  "website_shape t =
     (\<exists>scheme www host tld second path.
        t = scheme @ www @ host @ ''.'' @ tld @ second @ path \<and>
        scheme \<in> {[], ''http://'', ''https://''} \<and>
        www \<in> {[], ''www.''} \<and>
        host \<noteq> [] \<and> list_all host_char host \<and>
        2 \<le> length tld \<and> list_all alpha tld \<and>
        (second = [] \<or> (\<exists>u. second = ''.'' @ u \<and> 2 \<le> length u \<and> list_all alpha u)) \<and>
        (path = [] \<or> (\<exists>q. path = ''/'' @ q \<and> list_all (\<lambda>c. \<not> isspace c) q)))"

definition website_heuristic :: "string \<Rightarrow> bool" where
  "website_heuristic t =
     (CHR ''.'' \<in> set t \<and> (website_shape t \<or> (\<exists>ext \<in> set common_domains. sublist ext t)))"

text \<open>
  The classification as a chain of tests, first match wins: once with every test on the
  value as it is, once with the email and website tests on the value without its
  surrounding whitespace (and lowercased, for the website heuristic).
\<close>

definition classify_literal :: "string \<Rightarrow> content_type" where
  "classify_literal x =
     (if list_all isspace x then Empty
      else if email_shape x then Email
      else if sublist ''linkedin.com'' (lower x) then LinkedIn
      else if website_heuristic x then Website
      else Text)"

definition classify_stripped :: "string \<Rightarrow> content_type" where
  "classify_stripped x =
     (if list_all isspace x then Empty
      else if email_shape (strip x) then Email
      else if sublist ''linkedin.com'' (lower x) then LinkedIn
      else if website_heuristic (lower (strip x)) then Website
      else Text)"

text \<open>
  What the conversion loop does to a column, in closed form: the rows it visits, whether a
  cell is converted, the target it gets, and the cell and the sheet afterwards.
\<close>

definition processed_rows :: "config \<Rightarrow> worksheet \<Rightarrow> nat list" where
  "processed_rows cfg ws = [1..<nat (total_rows_of cfg ws + 1)]"

definition is_link_type :: "content_type \<Rightarrow> bool" where
  "is_link_type ct = (ct = Email \<or> ct = LinkedIn \<or> ct = Website)"

definition converts :: "cell \<Rightarrow> bool" where
  "converts c = (cell_text c \<noteq> [] \<and> is_link_type (detect_content_type (cell_text c)))"

definition link_target :: "string \<Rightarrow> string" where
  "link_target v = (if detect_content_type v = Email then ''mailto:'' @ v else format_website_url v)"

definition converted_cell :: "font \<Rightarrow> cell \<Rightarrow> cell" where
  "converted_cell hf c =
     (if converts c then c\<lparr>hyperlink := Some (link_target (cell_text c)), cell_font := hf\<rparr> else c)"

definition converted_sheet :: "font \<Rightarrow> nat list \<Rightarrow> worksheet \<Rightarrow> worksheet" where
  "converted_sheet hf rows ws =
     ws\<lparr>cell_at := (\<lambda>r. if r \<in> set rows then converted_cell hf (cell_at ws r) else cell_at ws r)\<rparr>"

text \<open>
  What the analysis samples: the cell values of the leading rows, at most 100 of them. The
  tally of a type over a list of values is the number of values classified as that type.
  Two readings of which values are tallied: the non-empty ones, and the ones that are not
  blank (not empty and not only whitespace).
\<close>

definition sampled_cell_values :: "worksheet \<Rightarrow> string list" where
  "sampled_cell_values ws =
     List.map_filter (\<lambda>r. cell_value (cell_at ws r)) [1..<min 100 (max_row ws) + 1]"

definition tally_of :: "string list \<Rightarrow> content_type \<Rightarrow> nat" where
  "tally_of vs t = length (filter (\<lambda>v. detect_content_type v = t) vs)"

definition nonempty_values :: "worksheet \<Rightarrow> string list" where
  "nonempty_values ws = filter (\<lambda>v. v \<noteq> []) (sampled_cell_values ws)"

definition nonblank_values :: "worksheet \<Rightarrow> string list" where
  "nonblank_values ws = filter (\<lambda>v. \<not> list_all isspace v) (sampled_cell_values ws)"

definition tally :: "worksheet \<Rightarrow> content_type \<Rightarrow> nat" where
  "tally ws t = tally_of (nonblank_values ws) t"

text \<open>The same count over row numbers, through the text the loop reads from a cell.\<close>

definition count_rows :: "worksheet \<Rightarrow> content_type \<Rightarrow> nat list \<Rightarrow> nat" where
  "count_rows ws t rows =
     length (filter (\<lambda>r. cell_text (cell_at ws r) \<noteq> [] \<and>
                          detect_content_type (cell_text (cell_at ws r)) = t) rows)"

text \<open>
  What a batch run leaves behind: the files handed to \<open>process_single_file\<close>, in order, as
  the event list records them; the events one file adds; the files that succeeded; and the
  eligible files of a listing, joined to the folder.
\<close>

definition calls :: "batch_event list \<Rightarrow> string list" where
  "calls evs = concat (map (\<lambda>e. case e of Call_process_single_file f \<Rightarrow> [f] | _ \<Rightarrow> []) evs)"

definition file_events ::
  "bool \<Rightarrow> (string \<Rightarrow> bool outcome) \<Rightarrow> nat \<Rightarrow> nat \<times> string \<Rightarrow> batch_event list" where
  "file_events tq process n item =
     [Call_process_single_file (snd item)] @
     (case process (snd item) of
        Returns ok \<Rightarrow> if ok then [] else [Log_error_failed (snd item)]
      | Raises e \<Rightarrow> [Log_error_exception (snd item) e, Print_error (basename (snd item)) e]) @
     (if tq then []
      else [Print_batch_progress (((int (fst item) + 1) * 100) div int n) (fst item + 1) n])"

definition succeeded :: "(string \<Rightarrow> bool outcome) \<Rightarrow> string list \<Rightarrow> string list" where
  "succeeded process fs = filter (\<lambda>f. process f = Returns True) fs"

definition excel_files_of :: "string list \<Rightarrow> string \<Rightarrow> string list \<Rightarrow> string list" where
  "excel_files_of exts folder_path files =
     map (path_join folder_path) (filter (is_excel_file exts) files)"

subsection \<open>Example data\<close>

definition empty_cell :: cell where
  "empty_cell = \<lparr>cell_value = None, hyperlink = None, cell_font = \<lparr>color = None, underline = None\<rparr>\<rparr>"

definition text_cell :: "string \<Rightarrow> cell" where
  "text_cell v = empty_cell\<lparr>cell_value := Some v\<rparr>"

definition example_sheet :: worksheet where
  "example_sheet =
     \<lparr>max_row = 4,
      cell_at = (\<lambda>r. if r = 1 then text_cell ''jane@example.com''
                     else if r = 2 then text_cell ''linkedin.com/in/jane''
                     else if r = 3 then text_cell '' example.com''
                     else if r = 4 then text_cell ''Hello World''
                     else empty_cell)\<rparr>"

definition example_config :: config where
  "example_config = \<lparr>hyperlink_color = ''0000FF'', max_rows_to_process = 100000\<rparr>"

definition capped_config :: config where
  "capped_config = \<lparr>hyperlink_color = ''0000FF'', max_rows_to_process = 2\<rparr>"

definition notes_sheet :: worksheet where
  "notes_sheet = \<lparr>max_row = 1, cell_at = (\<lambda>r. text_cell ''see notes.in today'')\<rparr>"

definition scenario_sheet :: worksheet where
  "scenario_sheet =
     \<lparr>max_row = 3,
      cell_at = (\<lambda>r. if r = 1 then text_cell ''a@b.com''
                     else if r = 2 then text_cell ''c@d.com''
                     else if r = 3 then text_cell ''notes''
                     else empty_cell)\<rparr>"

definition spaces_sheet :: worksheet where
  "spaces_sheet = \<lparr>max_row = 1, cell_at = (\<lambda>r. text_cell ''  '')\<rparr>"

definition default_extensions :: "string list" where
  "default_extensions = [''.xlsx'', ''.xlsm'', ''.xltx'', ''.xltm'']"

definition example_fs :: filesystem where
  "example_fs =
     \<lparr>path_exists = (\<lambda>p. p = ''data'' \<or> p = ''empty''),
      listdir = (\<lambda>p. if p = ''data'' then Inr [''a.xlsx'', ''bad.xlsx'', ''notes.txt'', ''C.XLSM'']
                     else Inr [''readme.md''])\<rparr>"

definition example_process :: "string \<Rightarrow> bool outcome" where
  "example_process f = (if f = ''data/bad.xlsx'' then Raises ''corrupt'' else Returns True)"

definition regular_file_fs :: filesystem where
  "regular_file_fs =
     \<lparr>path_exists = (\<lambda>p. p = ''report.xlsx''), listdir = (\<lambda>p. Inl NotADirectoryError)\<rparr>"

definition padded_sheet :: worksheet where
  "padded_sheet =
     \<lparr>max_row = 4,
      cell_at = (\<lambda>r. if r = 1 then text_cell '' a@b.co ''
                     else if r = 2 then text_cell '' LinkedIn.com/in/jo ''
                     else if r = 3 then text_cell ''   ''
                     else if r = 4 then text_cell ''plain''
                     else empty_cell)\<rparr>"

section \<open>Stripping whitespace\<close>

lemmas eval_simps = isspace_def strip_def lower_def lower_char_def char_of_def bit_Suc_0_iff
  re_match_def opt_def rep1_def rep2_def in_range_def alpha_def alnum_def email_local_char_def
  email_domain_char_def host_char_def email_pattern_def is_valid_email_def common_domains_def
  website_pattern_def is_valid_website_def is_valid_linkedin_def format_website_url_def
  detect_content_type_def sublist_code Let_def

lemma dropWhile_hd_id: "s = [] \<or> \<not> P (hd s) \<Longrightarrow> dropWhile P s = s"
  by (cases s) auto

lemma trimmed_strip_id: "trimmed s \<Longrightarrow> strip s = s"
proof -
  assume t: "trimmed s"
  have a: "dropWhile isspace s = s"
    using t by (intro dropWhile_hd_id) (auto simp: trimmed_def)
  have b: "dropWhile isspace (rev s) = rev s"
    using t by (intro dropWhile_hd_id) (auto simp: trimmed_def hd_rev)
  show ?thesis by (simp add: strip_def a b)
qed

lemma strip_trimmed: "trimmed (strip s)"
proof (cases "strip s = []")
  case True
  then show ?thesis by (simp add: trimmed_def)
next
  case False
  define t where "t = dropWhile isspace s"
  define u where "u = dropWhile isspace (rev t)"
  have su: "strip s = rev u" by (simp add: strip_def t_def u_def)
  with False have un: "u \<noteq> []" by simp
  then have l: "\<not> isspace (hd u)" unfolding u_def by (rule hd_dropWhile)
  from un have tn: "t \<noteq> []" by (auto simp: u_def)
  then have ht: "\<not> isspace (hd t)" unfolding t_def by (rule hd_dropWhile)
  obtain p where p: "rev t = p @ u"
    unfolding u_def by (metis takeWhile_dropWhile_id)
  with un have "last u = last (rev t)" by simp
  also have "\<dots> = hd t" using tn by (simp add: last_rev)
  finally have "\<not> isspace (last u)" using ht by simp
  with l un show ?thesis by (simp add: su trimmed_def hd_rev last_rev)
qed

lemma strip_idem: "strip (strip s) = strip s"
  by (rule trimmed_strip_id) (rule strip_trimmed)

lemma strip_decomp: "\<exists>p q. s = p @ strip s @ q \<and> list_all isspace p \<and> list_all isspace q"
proof -
  define t where "t = dropWhile isspace s"
  have 1: "s = takeWhile isspace s @ t" by (simp add: t_def)
  have 2: "rev t = takeWhile isspace (rev t) @ dropWhile isspace (rev t)" by simp
  have "t = rev (rev t)" by simp
  also have "\<dots> = rev (dropWhile isspace (rev t)) @ rev (takeWhile isspace (rev t))"
    by (subst 2) (simp only: rev_append)
  finally have 3: "t = strip s @ rev (takeWhile isspace (rev t))"
    by (simp add: strip_def t_def)
  have "s = takeWhile isspace s @ strip s @ rev (takeWhile isspace (rev t))"
    using 1 3 by simp
  moreover have "list_all isspace (takeWhile isspace s)"
    by (auto simp: list_all_iff dest: set_takeWhileD)
  moreover have "list_all isspace (rev (takeWhile isspace (rev t)))"
    by (auto simp: list_all_iff dest: set_takeWhileD)
  ultimately show ?thesis by blast
qed

lemma set_strip: "set (strip s) \<subseteq> set s"
proof -
  obtain p q where "s = p @ strip s @ q" using strip_decomp by blast
  then have "set s = set p \<union> set (strip s) \<union> set q" by (metis set_append Un_assoc)
  then show ?thesis by blast
qed

lemma strip_eq_Nil: "strip s = [] \<longleftrightarrow> list_all isspace s"
proof
  assume e: "strip s = []"
  obtain p q where "s = p @ strip s @ q" "list_all isspace p" "list_all isspace q"
    using strip_decomp by blast
  with e show "list_all isspace s" by (metis append_Nil list_all_append)
next
  assume "list_all isspace s"
  then have "dropWhile isspace s = []"
    unfolding list_all_iff by (rule dropWhile_eq_Nil_conv [THEN iffD2])
  then show "strip s = []" by (simp add: strip_def del: dropWhile_eq_Nil_conv)
qed

lemma last_strip_not_newline: "strip s \<noteq> [] \<Longrightarrow> last (strip s) \<noteq> CHR 0x0A"
proof -
  assume n: "strip s \<noteq> []"
  have "trimmed (strip s)" by (rule strip_trimmed)
  with n have "\<not> isspace (last (strip s))" by (simp add: trimmed_def)
  moreover have "isspace (CHR 0x0A)" by (simp add: isspace_def)
  ultimately show ?thesis by auto
qed

lemma re_match_strip: "re_match r (strip s) = rmatch r (strip s)"
  using last_strip_not_newline [of s] by (auto simp: re_match_def)

section \<open>Patterns and their languages\<close>

lemma nullable_lang: "nullable r \<longleftrightarrow> [] \<in> lang r"
  by (induction r) (auto intro: star.intros)

lemma star_Cons_iff:
  "c # w \<in> star A \<longleftrightarrow> (\<exists>u v. w = u @ v \<and> c # u \<in> A \<and> v \<in> star A)"
proof
  assume "c # w \<in> star A"
  then show "\<exists>u v. w = u @ v \<and> c # u \<in> A \<and> v \<in> star A"
  proof (induction "c # w" arbitrary: rule: star.induct)
    case (star_app u v)
    show ?case
    proof (cases u)
      case Nil
      with star_app show ?thesis by simp
    next
      case (Cons d u')
      with star_app.hyps(1,2,4) show ?thesis by auto
    qed
  qed
next
  assume "\<exists>u v. w = u @ v \<and> c # u \<in> A \<and> v \<in> star A"
  then obtain u v where "w = u @ v" "c # u \<in> A" "v \<in> star A" by blast
  then have "(c # u) @ v \<in> star A" by (intro star_app)
  with \<open>w = u @ v\<close> show "c # w \<in> star A" by simp
qed

lemma lang_rderiv: "w \<in> lang (rderiv c r) \<longleftrightarrow> c # w \<in> lang r"
proof (induction r arbitrary: w)
  case (Cat r s)
  show ?case
  proof
    assume "w \<in> lang (rderiv c (Cat r s))"
    then consider (l) u v where "w = u @ v" "u \<in> lang (rderiv c r)" "v \<in> lang s"
      | (r) "nullable r" "w \<in> lang (rderiv c s)"
      by (auto split: if_splits)
    then show "c # w \<in> lang (Cat r s)"
    proof cases
      case l
      then have "c # u \<in> lang r" using Cat.IH(1) by simp
      with l have "(c # u) @ v \<in> lang (Cat r s)" by (simp del: append_Cons) blast
      with l show ?thesis by simp
    next
      case r
      then have "[] \<in> lang r" "c # w \<in> lang s" using Cat.IH(2) by (simp_all add: nullable_lang)
      then have "[] @ (c # w) \<in> lang (Cat r s)" by (simp del: append_Nil) blast
      then show ?thesis by simp
    qed
  next
    assume "c # w \<in> lang (Cat r s)"
    then obtain u v where uv: "c # w = u @ v" "u \<in> lang r" "v \<in> lang s" by auto
    show "w \<in> lang (rderiv c (Cat r s))"
    proof (cases u)
      case Nil
      with uv have "nullable r" "w \<in> lang (rderiv c s)"
        using Cat.IH(2) by (simp_all add: nullable_lang)
      then show ?thesis by simp
    next
      case (Cons d u')
      with uv have "w = u' @ v" "u' \<in> lang (rderiv c r)" using Cat.IH(1) by simp_all
      with uv(3) show ?thesis by auto
    qed
  qed
next
  case (Rep r)
  then show ?case by (auto simp: star_Cons_iff)
qed auto

lemma rmatch_lang: "rmatch r w \<longleftrightarrow> w \<in> lang r"
  by (induction w arbitrary: r) (simp_all add: nullable_lang lang_rderiv)

lemma star_Cls: "w \<in> star {[c] | c. P c} \<longleftrightarrow> list_all P w"
proof
  assume "w \<in> star {[c] | c. P c}"
  then show "list_all P w" by (induction rule: star.induct) auto
next
  assume "list_all P w"
  then show "w \<in> star {[c] | c. P c}"
  proof (induction w)
    case Nil
    show ?case by (rule star_Nil)
  next
    case (Cons a w)
    then have "[a] @ w \<in> star {[c] | c. P c}" by (intro star_app) auto
    then show ?case by simp
  qed
qed

lemma lang_Rep_Cls: "lang (Rep (Cls P)) = {w. list_all P w}"
  by (auto simp: star_Cls)

lemma lang_Cat_Cls: "lang (Cat (Cls P) r) = {c # v | c v. P c \<and> v \<in> lang r}"
proof -
  have "\<And>c v. P c \<Longrightarrow> v \<in> lang r \<Longrightarrow> \<exists>u w. c # v = u @ w \<and> (\<exists>d. u = [d] \<and> P d) \<and> w \<in> lang r"
  proof -
    fix c v assume "P c" "v \<in> lang r"
    then have "c # v = [c] @ v \<and> (\<exists>d. [c] = [d] \<and> P d) \<and> v \<in> lang r" by simp
    then show "\<exists>u w. c # v = u @ w \<and> (\<exists>d. u = [d] \<and> P d) \<and> w \<in> lang r" by blast
  qed
  then show ?thesis by auto
qed

lemma lang_rep1_Cls: "lang (rep1 (Cls P)) = {w. w \<noteq> [] \<and> list_all P w}"
proof -
  have "\<And>w. w \<noteq> [] \<Longrightarrow> list_all P w \<Longrightarrow> \<exists>c v. w = c # v \<and> P c \<and> list_all P v"
    by (case_tac w) auto
  then show ?thesis unfolding rep1_def lang_Cat_Cls lang_Rep_Cls by auto
qed

lemma lang_rep2_Cls: "lang (rep2 (Cls P)) = {w. 2 \<le> length w \<and> list_all P w}"
proof -
  have "\<And>w. 2 \<le> length w \<Longrightarrow> list_all P w \<Longrightarrow>
          \<exists>c d v. w = c # d # v \<and> P c \<and> P d \<and> list_all P v"
  proof -
    fix w :: string assume "2 \<le> length w" "list_all P w"
    then obtain c d v where "w = c # d # v"
      by (cases w; cases "tl w") auto
    with \<open>list_all P w\<close> show "\<exists>c d v. w = c # d # v \<and> P c \<and> P d \<and> list_all P v" by auto
  qed
  then show ?thesis unfolding rep2_def lang_Cat_Cls lang_Rep_Cls by auto blast
qed

lemma lang_lit: "lang (lit s) = {s}"
  by (induction s) auto

lemma lang_email_pattern:
  "lang email_pattern =
     {l @ ''@'' @ d @ ''.'' @ t | l d t.
        l \<noteq> [] \<and> list_all email_local_char l \<and> d \<noteq> [] \<and> list_all email_domain_char d \<and>
        2 \<le> length t \<and> list_all alpha t}"
  unfolding email_pattern_def lang.simps(4) lang_rep1_Cls lang_rep2_Cls lang_lit
  by (auto; blast)

lemma rmatch_email_shape: "rmatch email_pattern s \<longleftrightarrow> email_shape s"
  unfolding rmatch_lang lang_email_pattern email_shape_def by blast

lemma lang_opt: "lang (opt r) = lang r \<union> {[]}"
  by (simp add: opt_def)

lemma lang_Cat_lit: "lang (Cat (lit s) r) = {s @ v | v. v \<in> lang r}"
  by (auto simp: lang_lit)

lemma lang_scheme:
  "lang (opt (Cat (lit ''http'') (Cat (opt (lit ''s'')) (lit ''://'')))) =
     {[], ''http://'', ''https://''}"
  unfolding lang_opt lang_Cat_lit lang.simps(4) lang_lit by auto

lemma lang_www: "lang (opt (lit ''www.'')) = {[], ''www.''}"
  unfolding lang_opt lang_lit by auto

lemma lang_second:
  "lang (opt (Cat (lit ''.'') (rep2 (Cls alpha)))) =
     {s. s = [] \<or> (\<exists>u. s = ''.'' @ u \<and> 2 \<le> length u \<and> list_all alpha u)}"
  unfolding lang_opt lang_Cat_lit lang_rep2_Cls by auto

lemma lang_path:
  "lang (opt (Cat (lit ''/'') (Rep (Cls (\<lambda>c. \<not> isspace c))))) =
     {s. s = [] \<or> (\<exists>q. s = ''/'' @ q \<and> list_all (\<lambda>c. \<not> isspace c) q)}"
  unfolding lang_opt lang_Cat_lit lang_Rep_Cls by auto

lemma lang_website_pattern: "lang website_pattern = {t. website_shape t}"
proof -
  have "lang website_pattern =
    {scheme @ v1 | scheme v1. scheme \<in> {[], ''http://'', ''https://''} \<and> v1 \<in>
    {www @ v2 | www v2. www \<in> {[], ''www.''} \<and> v2 \<in>
    {host @ v3 | host v3. host \<in> {w. w \<noteq> [] \<and> list_all host_char w} \<and> v3 \<in>
    {''.'' @ v4 | v4. v4 \<in>
    {tld @ v5 | tld v5. tld \<in> {w. 2 \<le> length w \<and> list_all alpha w} \<and> v5 \<in>
    {second @ path | second path.
       second \<in> {s. s = [] \<or> (\<exists>u. s = ''.'' @ u \<and> 2 \<le> length u \<and> list_all alpha u)} \<and>
       path \<in> {s. s = [] \<or> (\<exists>q. s = ''/'' @ q \<and> list_all (\<lambda>c. \<not> isspace c) q)}}}}}}}"
    unfolding website_pattern_def lang.simps(4) lang_scheme lang_www lang_rep1_Cls lang_rep2_Cls
      lang_second lang_path lang_lit
    by simp
  also have "\<dots> = {t. website_shape t}"
    unfolding website_shape_def
    apply (rule set_eqI)
    apply (rule iffI)
     apply (clarsimp simp only: mem_Collect_eq)
     apply (rule_tac x = scheme in exI, rule_tac x = www in exI, rule_tac x = host in exI,
        rule_tac x = tld in exI, rule_tac x = second in exI, rule_tac x = path in exI)
     apply simp
    apply (simp only: mem_Collect_eq)
    apply (elim exE conjE)
    apply (rule_tac x = scheme in exI, rule_tac x = "www @ host @ ''.'' @ tld @ second @ path" in exI)
    apply (intro conjI, assumption, assumption)
    apply (rule_tac x = www in exI, rule_tac x = "host @ ''.'' @ tld @ second @ path" in exI)
    apply (intro conjI refl, assumption)
    apply (rule_tac x = host in exI, rule_tac x = "''.'' @ tld @ second @ path" in exI)
    apply (intro conjI refl, assumption, assumption)
    apply (rule_tac x = "tld @ second @ path" in exI)
    apply (intro conjI refl)
    apply (rule_tac x = tld in exI, rule_tac x = "second @ path" in exI)
    apply (intro conjI refl, assumption, assumption)
    apply (rule_tac x = second in exI, rule_tac x = path in exI)
    apply (intro conjI refl, assumption, assumption)
    done
  finally show ?thesis .
qed

section \<open>The classifier\<close>

lemma lower_char_space: "isspace c \<Longrightarrow> lower_char c = c"
  by (auto simp: isspace_def lower_char_def Let_def)

lemma isspace_lower_char: "isspace (lower_char c) \<longleftrightarrow> isspace c"
proof (cases "lower_char c = c")
  case True
  then show ?thesis by simp
next
  case False
  define n where "n = (of_char c :: nat)"
  from False have up: "(65 \<le> n \<and> n \<le> 90) \<or> (192 \<le> n \<and> n \<le> 222 \<and> n \<noteq> 215)"
    and lc: "lower_char c = char_of (n + 32)"
    by (auto simp: lower_char_def Let_def n_def split: if_splits)
  from up have "(of_char (char_of (n + 32) :: char) :: nat) = n + 32" by auto
  with up lc have "\<not> isspace (lower_char c)" by (auto simp: isspace_def Let_def)
  moreover from up have "\<not> isspace c" by (auto simp: isspace_def Let_def n_def)
  ultimately show ?thesis by simp
qed

lemma sublist_drop_left:
  assumes "list_all P p" "\<not> P (hd n)" "n \<noteq> []"
  shows "sublist n (p @ m) \<longleftrightarrow> sublist n m"
  using assms
proof (induction p)
  case Nil
  then show ?case by simp
next
  case (Cons a p)
  then have "\<not> prefix n (a # p @ m)" by (cases n) auto
  with Cons show ?case by (simp add: sublist_Cons_right)
qed

lemma sublist_drop_right:
  assumes "list_all P q" "\<not> P (last n)" "n \<noteq> []"
  shows "sublist n (m @ q) \<longleftrightarrow> sublist n m"
proof -
  have "sublist n (m @ q) \<longleftrightarrow> sublist (rev n) (rev q @ rev m)"
    by (metis rev_append sublist_rev)
  also have "\<dots> \<longleftrightarrow> sublist (rev n) (rev m)"
    using assms by (intro sublist_drop_left [where P = P]) (auto simp: hd_rev)
  also have "\<dots> \<longleftrightarrow> sublist n m" by (rule sublist_rev)
  finally show ?thesis .
qed

lemma sublist_lower_strip:
  assumes "n \<noteq> []" "\<not> isspace (hd n)" "\<not> isspace (last n)"
  shows "sublist n (lower (strip x)) \<longleftrightarrow> sublist n (lower x)"
proof -
  obtain p q where x: "x = p @ strip x @ q" and p: "list_all isspace p" and q: "list_all isspace q"
    using strip_decomp by blast
  have lp: "list_all isspace (lower p)" and lq: "list_all isspace (lower q)"
    using p q by (auto simp: lower_def list_all_iff isspace_lower_char)
  have "lower x = lower p @ lower (strip x) @ lower q"
    by (subst x) (simp add: lower_def)
  then have "sublist n (lower x) \<longleftrightarrow> sublist n (lower p @ lower (strip x) @ lower q)" by simp
  also have "\<dots> \<longleftrightarrow> sublist n (lower (strip x) @ lower q)"
    using lp assms by (intro sublist_drop_left [where P = isspace])
  also have "\<dots> \<longleftrightarrow> sublist n (lower (strip x))"
    using lq assms by (intro sublist_drop_right [where P = isspace])
  finally show ?thesis by simp
qed

lemma is_valid_email_strip: "is_valid_email (strip x) = is_valid_email x"
  by (simp add: is_valid_email_def strip_idem)

lemma is_valid_website_strip: "is_valid_website (strip x) = is_valid_website x"
  by (simp add: is_valid_website_def strip_idem)

lemma is_valid_linkedin_iff: "is_valid_linkedin (strip x) \<longleftrightarrow> sublist ''linkedin.com'' (lower x)"
proof -
  have "sublist ''linkedin.com'' (lower (strip x)) \<longleftrightarrow> sublist ''linkedin.com'' (lower x)"
    by (rule sublist_lower_strip) (simp_all add: isspace_def)
  then show ?thesis by (simp add: is_valid_linkedin_def strip_idem)
qed

subsection \<open>Formatting website URLs\<close>

lemma trimmed_https: "trimmed (''https://'' @ strip x)"
proof -
  have t: "trimmed (strip x)" by (rule strip_trimmed)
  have "\<not> isspace CHR ''h''" "\<not> isspace CHR ''/''" by (simp_all add: isspace_def)
  with t show ?thesis by (cases "strip x = []") (auto simp: trimmed_def)
qed

text \<open>
  C5: formatting a URL twice is formatting it once, and the result is the stripped
  argument, with \<open>https://\<close> in front exactly when it starts with neither \<open>http://\<close> nor
  \<open>https://\<close>.
\<close>

theorem format_website_url_idempotent:
  "format_website_url (format_website_url x) = format_website_url x \<and>
   format_website_url x =
     (if prefix ''http://'' (strip x) \<or> prefix ''https://'' (strip x) then strip x
      else ''https://'' @ strip x)"
proof -
  have a: "strip (''https://'' @ strip x) = ''https://'' @ strip x"
    by (rule trimmed_strip_id) (rule trimmed_https)
  have b: "prefix ''https://'' (''https://'' @ strip x)" by (rule prefixI) simp
  show ?thesis
    unfolding format_website_url_def Let_def using a b by (simp add: strip_idem)
qed

subsection \<open>Email addresses\<close>

lemma is_valid_email_shape: "is_valid_email x \<longleftrightarrow> email_shape (strip x)"
  by (simp add: is_valid_email_def re_match_strip rmatch_email_shape)

lemma email_shape_at: "email_shape s \<Longrightarrow> CHR ''@'' \<in> set s"
  by (auto simp: email_shape_def)

lemma email_shape_Nil: "\<not> email_shape []"
  by (auto simp: email_shape_def)

lemma detect_Email_iff: "detect_content_type x = Email \<longleftrightarrow> email_shape (strip x)"
  using email_shape_Nil
  by (auto simp: detect_content_type_def Let_def is_valid_email_shape strip_idem)

text \<open>
  C7, as amended: when a string is classified as Email, it contains \<open>@\<close> and, once its
  surrounding whitespace is stripped, it has the shape of the email pattern in full.
\<close>

theorem email_classified_shape:
  "detect_content_type x = Email \<Longrightarrow> CHR ''@'' \<in> set x \<and> email_shape (strip x)"
proof -
  assume "detect_content_type x = Email"
  then have e: "email_shape (strip x)" by (simp add: detect_Email_iff)
  then have "CHR ''@'' \<in> set (strip x)" by (rule email_shape_at)
  with set_strip have "CHR ''@'' \<in> set x" by blast
  with e show ?thesis by simp
qed

theorem email_classified_shape_witness:
  "detect_content_type ''jane@example.com'' = Email \<and> CHR ''@'' \<in> set ''jane@example.com'' \<and>
   email_shape (strip ''jane@example.com'')"
proof -
  have h: "detect_content_type ''jane@example.com'' = Email" by (simp add: eval_simps)
  from email_classified_shape [OF h] h show ?thesis by simp
qed

text \<open>
  C7 as stated fails for a value with whitespace around it: it is classified as Email, but
  the value itself does not have the shape, only its stripped form has.
\<close>

theorem email_unstripped_counterexample:
  "detect_content_type '' a@b.co'' = Email \<and> '' a@b.co'' \<noteq> [] \<and> \<not> email_shape '' a@b.co''"
proof -
  have "detect_content_type '' a@b.co'' = Email" by (simp add: eval_simps)
  moreover have "\<not> email_shape '' a@b.co''"
    unfolding rmatch_email_shape [symmetric] by (simp add: eval_simps)
  ultimately show ?thesis by simp
qed

subsection \<open>Precedence of the tests\<close>

lemma rmatch_website_shape: "rmatch website_pattern t \<longleftrightarrow> website_shape t"
  by (simp add: rmatch_lang lang_website_pattern)

lemma last_lower_strip_not_newline:
  "lower (strip x) \<noteq> [] \<Longrightarrow> last (lower (strip x)) \<noteq> CHR 0x0A"
proof -
  assume n: "lower (strip x) \<noteq> []"
  then have s: "strip x \<noteq> []" by (simp add: lower_def)
  have "trimmed (strip x)" by (rule strip_trimmed)
  with s have "\<not> isspace (last (strip x))" by (simp add: trimmed_def)
  then have "\<not> isspace (lower_char (last (strip x)))" by (simp add: isspace_lower_char)
  moreover have "last (lower (strip x)) = lower_char (last (strip x))"
    using s by (simp add: lower_def last_map)
  moreover have "isspace (CHR 0x0A)" by (simp add: isspace_def)
  ultimately show ?thesis by auto
qed

lemma re_match_lower_strip: "re_match r (lower (strip x)) = rmatch r (lower (strip x))"
  using last_lower_strip_not_newline [of x] by (auto simp: re_match_def)

lemma is_valid_website_heuristic: "is_valid_website x \<longleftrightarrow> website_heuristic (lower (strip x))"
  by (auto simp: is_valid_website_def Let_def website_heuristic_def re_match_lower_strip
      rmatch_website_shape list_ex_iff)

text \<open>
  C1, as amended: for every string, the detected type follows the fixed precedence, with
  the email and website tests on the stripped value: empty or only whitespace gives Empty;
  else the stripped value having the shape of the email pattern gives Email; else a value
  containing \<open>linkedin.com\<close> in any letter case gives LinkedIn; else the stripped, lowercased
  value satisfying the website heuristic gives Website; else Text. The result is one of
  these five types.
\<close>

theorem detect_content_type_precedence:
  "detect_content_type x = classify_stripped x \<and>
   detect_content_type x \<in> {Empty, Email, LinkedIn, Website, Text}"
proof -
  have 1: "detect_content_type x = classify_stripped x"
    by (simp add: detect_content_type_def classify_stripped_def Let_def strip_eq_Nil
        is_valid_email_shape is_valid_website_heuristic is_valid_linkedin_iff strip_idem)
  have 2: "classify_stripped x \<in> {Empty, Email, LinkedIn, Website, Text}"
    by (simp add: classify_stripped_def)
  from 1 2 show ?thesis by simp
qed

text \<open>
  C1 as stated, with every test on the value itself, fails for a value with whitespace
  around it: the chain on the value gives Website, the program gives Email.
\<close>

theorem precedence_on_raw_value_counterexample:
  "detect_content_type '' a@b.co'' = Email \<and> classify_literal '' a@b.co'' = Website"
proof -
  have "detect_content_type '' a@b.co'' = Email" by (simp add: eval_simps)
  moreover have "\<not> email_shape '' a@b.co''"
    unfolding rmatch_email_shape [symmetric] by (simp add: eval_simps)
  moreover have "\<not> list_all isspace '' a@b.co''" by (simp add: isspace_def)
  moreover have "\<not> sublist ''linkedin.com'' (lower '' a@b.co'')" by (simp add: eval_simps)
  moreover have "website_heuristic '' a@b.co''"
    by (simp add: website_heuristic_def common_domains_def sublist_code)
  ultimately show ?thesis by (simp add: classify_literal_def)
qed

subsection \<open>Known domain extensions\<close>

lemma sublist_dot: "ext \<in> set common_domains \<Longrightarrow> sublist ext t \<Longrightarrow> t \<noteq> [] \<and> CHR ''.'' \<in> set t"
proof -
  assume e: "ext \<in> set common_domains" and s: "sublist ext t"
  from e have "CHR ''.'' \<in> set ext" by (auto simp: common_domains_def)
  moreover from s have "set ext \<subseteq> set t" by (rule set_mono_sublist)
  ultimately show ?thesis by auto
qed

lemma tld_is_valid_website:
  "list_ex (\<lambda>ext. sublist ext (lower (strip x))) common_domains \<Longrightarrow> is_valid_website x"
proof -
  assume h: "list_ex (\<lambda>ext. sublist ext (lower (strip x))) common_domains"
  then obtain ext where "ext \<in> set common_domains" "sublist ext (lower (strip x))"
    by (auto simp: list_ex_iff)
  then have "lower (strip x) \<noteq> [] \<and> CHR ''.'' \<in> set (lower (strip x))" by (rule sublist_dot)
  with h show ?thesis by (simp add: is_valid_website_def Let_def)
qed

lemma tld_never_text:
  "list_ex (\<lambda>ext. sublist ext (lower (strip x))) common_domains \<Longrightarrow>
     detect_content_type x \<in> {Email, LinkedIn, Website}"
proof -
  assume h: "list_ex (\<lambda>ext. sublist ext (lower (strip x))) common_domains"
  then have w: "is_valid_website x" by (rule tld_is_valid_website)
  then have "strip x \<noteq> []" by (auto simp: is_valid_website_def Let_def lower_def)
  with w show ?thesis
    by (simp add: detect_content_type_def Let_def is_valid_website_strip)
qed

section \<open>The conversion loop\<close>

lemma set_cell_same: "set_cell ws r (cell_at ws r) = ws"
  by (simp add: set_cell_def)

lemma convert_row_sheet:
  "sheet (convert_row hf r s) = set_cell (sheet s) r (converted_cell hf (cell_at (sheet s) r))"
  by (auto simp: convert_row_def Let_def converted_cell_def converts_def is_link_type_def
      link_target_def set_cell_same)

lemma convert_row_count:
  "converted_count (convert_row hf r s) =
     converted_count s + (if converts (cell_at (sheet s) r) then 1 else 0)"
  by (auto simp: convert_row_def Let_def converts_def is_link_type_def)

lemma update_progress_Inr:
  assumes "tq \<or> tot \<noteq> 0"
  shows "\<exists>s'. update_progress tq tot r s = Inr s' \<and> sheet s' = sheet s \<and>
               converted_count s' = converted_count s"
  using assms by (auto simp: update_progress_def floordiv_def)

lemma converted_sheet_Nil: "converted_sheet hf [] ws = ws"
  by (simp add: converted_sheet_def)

lemma converted_sheet_Cons:
  "x \<notin> set xs \<Longrightarrow>
     converted_sheet hf xs (set_cell ws x (converted_cell hf (cell_at ws x))) =
     converted_sheet hf (x # xs) ws"
  by (auto simp: converted_sheet_def set_cell_def fun_eq_iff)

lemma filter_converts_Cons:
  "x \<notin> set xs \<Longrightarrow>
     filter (\<lambda>r. converts (cell_at (set_cell ws x c) r)) xs = filter (\<lambda>r. converts (cell_at ws r)) xs"
  by (rule filter_cong) (auto simp: set_cell_def)

lemma convert_loop:
  assumes "rows \<noteq> [] \<longrightarrow> tq \<or> tot \<noteq> 0" and "distinct rows"
  shows "\<exists>s'. for_each (\<lambda>row s. update_progress tq tot row (convert_row hf row s)) rows s = Inr s'
            \<and> sheet s' = converted_sheet hf rows (sheet s)
            \<and> converted_count s' =
                converted_count s + length (filter (\<lambda>r. converts (cell_at (sheet s) r)) rows)"
  using assms
proof (induction rows arbitrary: s)
  case Nil
  then show ?case by (simp add: converted_sheet_Nil)
next
  case (Cons x xs)
  let ?body = "\<lambda>row s. update_progress tq tot row (convert_row hf row s)"
  from Cons.prems have t: "tq \<or> tot \<noteq> 0" and x: "x \<notin> set xs" and d: "distinct xs" by auto
  from update_progress_Inr [OF t] obtain s1 where
    s1: "update_progress tq tot x (convert_row hf x s) = Inr s1"
    and sh1: "sheet s1 = sheet (convert_row hf x s)"
    and c1: "converted_count s1 = converted_count (convert_row hf x s)" by blast
  from Cons.IH [of s1] t d obtain s' where
    l: "for_each ?body xs s1 = Inr s'"
    and sh: "sheet s' = converted_sheet hf xs (sheet s1)"
    and c: "converted_count s' =
              converted_count s1 + length (filter (\<lambda>r. converts (cell_at (sheet s1) r)) xs)"
    by auto
  have "for_each ?body (x # xs) s = Inr s'" using s1 l by simp
  moreover have "sheet s' = converted_sheet hf (x # xs) (sheet s)"
    using sh sh1 x by (simp add: convert_row_sheet converted_sheet_Cons)
  moreover have "converted_count s' =
      converted_count s + length (filter (\<lambda>r. converts (cell_at (sheet s) r)) (x # xs))"
    using c c1 sh1 x by (simp add: convert_row_sheet convert_row_count filter_converts_Cons)
  ultimately show ?case by blast
qed

lemma processed_rows_iff: "r \<in> set (processed_rows cfg ws) \<longleftrightarrow> 1 \<le> r \<and> int r \<le> total_rows_of cfg ws"
  by (auto simp: processed_rows_def)

lemma convert_column_result:
  "\<exists>s. convert_column_to_hyperlinks tq cfg ws = Inr s
      \<and> sheet s = converted_sheet (hyperlink_font_of cfg) (processed_rows cfg ws) ws
      \<and> converted_count s = length (filter (\<lambda>r. converts (cell_at ws r)) (processed_rows cfg ws))"
proof -
  define tot where "tot = total_rows_of cfg ws"
  define s0 where "s0 = \<lparr>sheet = ws, converted_count = 0, last_progress = 0,
      console = [Print_profile (fst (analyze_column ws)) (snd (analyze_column ws)),
                 if tq then Bar_open tot else Print_processing tot]\<rparr>"
  have ne: "[1..<nat (tot + 1)] \<noteq> [] \<longrightarrow> tq \<or> tot \<noteq> 0" by auto
  from convert_loop [OF ne, of "hyperlink_font_of cfg" s0] obtain s' where
    l: "for_each (\<lambda>row s. update_progress tq tot row (convert_row (hyperlink_font_of cfg) row s))
          [1..<nat (tot + 1)] s0 = Inr s'"
    and sh: "sheet s' = converted_sheet (hyperlink_font_of cfg) [1..<nat (tot + 1)] (sheet s0)"
    and c: "converted_count s' =
      converted_count s0 + length (filter (\<lambda>r. converts (cell_at (sheet s0) r)) [1..<nat (tot + 1)])"
    by auto
  have "convert_column_to_hyperlinks tq cfg ws =
          Inr (if tq then s'\<lparr>console := console s' @ [Bar_close]\<rparr> else s')"
    using l
    by (cases tq) (simp_all add: convert_column_to_hyperlinks_def Let_def case_prod_beta tot_def s0_def)
  with sh c show ?thesis
    by (auto simp: s0_def processed_rows_def tot_def)
qed

lemmas example_simps = example_sheet_def example_config_def text_cell_def empty_cell_def
  cell_text_def total_rows_of_def hyperlink_font_of_def

lemma detect_never_Unknown: "detect_content_type x \<noteq> Unknown"
  by (simp add: detect_content_type_def Let_def)

lemma detect_strip: "detect_content_type (strip x) = detect_content_type x"
  by (simp add: detect_content_type_def Let_def strip_idem)

lemma converted_sheet_cell:
  "cell_at (converted_sheet hf rows ws) r =
     (if r \<in> set rows then converted_cell hf (cell_at ws r) else cell_at ws r)"
  by (simp add: converted_sheet_def)

lemma converted_sheet_max_row: "max_row (converted_sheet hf rows ws) = max_row ws"
  by (simp add: converted_sheet_def)

lemma converted_cell_value: "cell_value (converted_cell hf c) = cell_value c"
  by (simp add: converted_cell_def)

lemma converted_cell_changed: "converted_cell hf c \<noteq> c \<Longrightarrow> converts c"
  by (auto simp: converted_cell_def split: if_splits)

lemma converts_iff:
  "converts c \<longleftrightarrow>
     cell_text c \<noteq> [] \<and> detect_content_type (cell_text c) \<in> {Email, LinkedIn, Website}"
  by (auto simp: converts_def is_link_type_def)

lemma length_processed_rows: "int (length (processed_rows cfg ws)) = max 0 (total_rows_of cfg ws)"
  by (simp add: processed_rows_def)

text \<open>
  C2: the conversion of a column changes a cell only if its text is classified as Email,
  LinkedIn or Website; every cell classified as Empty or Text is the same cell afterwards
  (value, hyperlink and font), no cell value changes, and the row extent stays.
\<close>

theorem convert_column_frame:
  "\<exists>s. convert_column_to_hyperlinks tq cfg ws = Inr s \<and> max_row (sheet s) = max_row ws \<and>
     (\<forall>r. cell_value (cell_at (sheet s) r) = cell_value (cell_at ws r)) \<and>
     (\<forall>r. cell_at (sheet s) r \<noteq> cell_at ws r \<longrightarrow>
          detect_content_type (cell_text (cell_at ws r)) \<in> {Email, LinkedIn, Website}) \<and>
     (\<forall>r. detect_content_type (cell_text (cell_at ws r)) \<in> {Empty, Text} \<longrightarrow>
          cell_at (sheet s) r = cell_at ws r)"
proof -
  let ?hf = "hyperlink_font_of cfg" and ?rows = "processed_rows cfg ws"
  from convert_column_result [of tq cfg ws] obtain s where
    r: "convert_column_to_hyperlinks tq cfg ws = Inr s" and
    sh: "sheet s = converted_sheet ?hf ?rows ws" by blast
  have 1: "max_row (sheet s) = max_row ws" by (simp add: sh converted_sheet_max_row)
  have 2: "cell_value (cell_at (sheet s) r) = cell_value (cell_at ws r)" for r
    by (simp add: sh converted_sheet_cell converted_cell_value)
  have 3: "detect_content_type (cell_text (cell_at ws r)) \<in> {Email, LinkedIn, Website}"
    if "cell_at (sheet s) r \<noteq> cell_at ws r" for r
  proof -
    from that have "converted_cell ?hf (cell_at ws r) \<noteq> cell_at ws r"
      by (simp add: sh converted_sheet_cell split: if_splits)
    then have "converts (cell_at ws r)" by (rule converted_cell_changed)
    then show ?thesis by (simp add: converts_iff)
  qed
  have 4: "cell_at (sheet s) r = cell_at ws r"
    if "detect_content_type (cell_text (cell_at ws r)) \<in> {Empty, Text}" for r
  proof (rule ccontr)
    assume "cell_at (sheet s) r \<noteq> cell_at ws r"
    then have "detect_content_type (cell_text (cell_at ws r)) \<in> {Email, LinkedIn, Website}"
      by (rule 3)
    with that show False by auto
  qed
  from r 1 2 3 4 show ?thesis by blast
qed

lemma example_result:
  "\<exists>s. convert_column_to_hyperlinks tq example_config example_sheet = Inr s \<and>
       converted_count s = 3 \<and>
       cell_at (sheet s) 1 = text_cell ''jane@example.com''
          \<lparr>hyperlink := Some ''mailto:jane@example.com'',
           cell_font := \<lparr>color = Some ''0000FF'', underline = Some ''single''\<rparr>\<rparr> \<and>
       cell_at (sheet s) 3 = text_cell '' example.com''
          \<lparr>hyperlink := Some ''https://example.com'',
           cell_font := \<lparr>color = Some ''0000FF'', underline = Some ''single''\<rparr>\<rparr> \<and>
       cell_at (sheet s) 4 = text_cell ''Hello World''"
proof -
  have rows: "processed_rows example_config example_sheet = [1, 2, 3, 4]"
    by (simp add: processed_rows_def example_simps upt_rec)
  have c1: "converts (text_cell ''jane@example.com'')"
    and c2: "converts (text_cell ''linkedin.com/in/jane'')"
    and c3: "converts (text_cell '' example.com'')"
    and c4: "\<not> converts (text_cell ''Hello World'')"
    by (simp_all add: converts_iff example_simps eval_simps)
  have t1: "link_target ''jane@example.com'' = ''mailto:jane@example.com''"
    and t3: "link_target ''example.com'' = ''https://example.com''"
    by (simp_all add: link_target_def eval_simps)
  have x1: "cell_text (text_cell ''jane@example.com'') = ''jane@example.com''"
    and x3: "cell_text (text_cell '' example.com'') = ''example.com''"
    by (simp_all add: example_simps strip_def isspace_def)
  from convert_column_result [of tq example_config example_sheet] obtain s where
    r: "convert_column_to_hyperlinks tq example_config example_sheet = Inr s" and
    sh: "sheet s = converted_sheet (hyperlink_font_of example_config) [1, 2, 3, 4] example_sheet" and
    c: "converted_count s = length (filter (\<lambda>r. converts (cell_at example_sheet r)) [1, 2, 3, 4])"
    unfolding rows by blast
  have "converted_count s = 3"
    unfolding c using c1 c2 c3 c4 by (simp add: example_sheet_def)
  moreover have "cell_at (sheet s) 1 = text_cell ''jane@example.com''
          \<lparr>hyperlink := Some ''mailto:jane@example.com'',
           cell_font := \<lparr>color = Some ''0000FF'', underline = Some ''single''\<rparr>\<rparr>"
    unfolding sh converted_sheet_cell using c1 t1 x1
    by (simp add: example_sheet_def converted_cell_def hyperlink_font_of_def example_config_def)
  moreover have "cell_at (sheet s) 3 = text_cell '' example.com''
          \<lparr>hyperlink := Some ''https://example.com'',
           cell_font := \<lparr>color = Some ''0000FF'', underline = Some ''single''\<rparr>\<rparr>"
    unfolding sh converted_sheet_cell using c3 t3 x3
    by (simp add: example_sheet_def converted_cell_def hyperlink_font_of_def example_config_def)
  moreover have "cell_at (sheet s) 4 = text_cell ''Hello World''"
    unfolding sh converted_sheet_cell using c4
    by (simp add: example_sheet_def converted_cell_def)
  ultimately show ?thesis using r by blast
qed

theorem convert_column_frame_witness:
  "\<exists>s. convert_column_to_hyperlinks True example_config example_sheet = Inr s \<and>
       cell_at (sheet s) 1 \<noteq> cell_at example_sheet 1 \<and>
       detect_content_type (cell_text (cell_at example_sheet 1)) = Email \<and>
       detect_content_type (cell_text (cell_at example_sheet 4)) = Text \<and>
       cell_at (sheet s) 4 = cell_at example_sheet 4"
proof -
  from convert_column_frame [of True example_config example_sheet] obtain s where
    r: "convert_column_to_hyperlinks True example_config example_sheet = Inr s" and
    f: "\<forall>r. detect_content_type (cell_text (cell_at example_sheet r)) \<in> {Empty, Text} \<longrightarrow>
          cell_at (sheet s) r = cell_at example_sheet r" by blast
  from example_result [of True] r have
    e: "cell_at (sheet s) 1 = text_cell ''jane@example.com''
          \<lparr>hyperlink := Some ''mailto:jane@example.com'',
           cell_font := \<lparr>color = Some ''0000FF'', underline = Some ''single''\<rparr>\<rparr>" by auto
  have d1: "detect_content_type (cell_text (cell_at example_sheet 1)) = Email"
    and d4: "detect_content_type (cell_text (cell_at example_sheet 4)) = Text"
    by (simp_all add: example_simps eval_simps)
  from f d4 have "cell_at (sheet s) 4 = cell_at example_sheet 4" by simp
  moreover have "cell_at (sheet s) 1 \<noteq> cell_at example_sheet 1"
    unfolding e by (simp add: example_simps)
  ultimately show ?thesis using r d1 d4 by blast
qed

section \<open>Targets, counts and progress reporting\<close>

lemma converted_cell_link:
  assumes "cell_text c \<noteq> []" "detect_content_type (cell_text c) \<in> {Email, LinkedIn, Website}"
  shows "hyperlink (converted_cell hf c) = Some (link_target (cell_text c))"
    and "cell_font (converted_cell hf c) = hf"
  using assms by (simp_all add: converted_cell_def converts_iff)

lemma cell_text_Some: "cell_value c = Some x \<Longrightarrow> cell_text c = strip x"
  by (auto simp: cell_text_def strip_def)

lemma format_website_url_strip: "format_website_url (strip v) = format_website_url v"
  by (simp add: format_website_url_def strip_idem)

lemma link_type_not_blank:
  "detect_content_type v \<in> {Email, LinkedIn, Website} \<Longrightarrow> strip v \<noteq> []"
  by (auto simp: detect_content_type_def Let_def)

lemma converts_raw:
  "converts c \<longleftrightarrow>
     (case cell_value c of None \<Rightarrow> False
      | Some u \<Rightarrow> detect_content_type u \<in> {Email, LinkedIn, Website})"
proof (cases "cell_value c")
  case None
  then show ?thesis by (simp add: converts_iff cell_text_def)
next
  case (Some u)
  then have "cell_text c = strip u" by (rule cell_text_Some)
  with Some show ?thesis
    using link_type_not_blank [of u] by (auto simp: converts_iff detect_strip)
qed

lemma convert_column_cell:
  assumes "1 \<le> r" and "int r \<le> total_rows_of cfg ws"
    and "cell_value (cell_at ws r) = Some v"
    and "detect_content_type v \<in> {Email, LinkedIn, Website}"
  shows "\<exists>s. convert_column_to_hyperlinks tq cfg ws = Inr s \<and>
    hyperlink (cell_at (sheet s) r) =
      Some (if detect_content_type v = Email then ''mailto:'' @ strip v else format_website_url v) \<and>
    cell_font (cell_at (sheet s) r) = hyperlink_font_of cfg"
proof -
  let ?hf = "hyperlink_font_of cfg" and ?rows = "processed_rows cfg ws"
  from convert_column_result [of tq cfg ws] obtain s where
    res: "convert_column_to_hyperlinks tq cfg ws = Inr s" and
    sh: "sheet s = converted_sheet ?hf ?rows ws" by blast
  from assms(3) have t: "cell_text (cell_at ws r) = strip v" by (rule cell_text_Some)
  from assms(4) have ne: "strip v \<noteq> []" by (rule link_type_not_blank)
  from assms(1,2) have "r \<in> set ?rows" by (simp add: processed_rows_iff)
  then have cell: "cell_at (sheet s) r = converted_cell ?hf (cell_at ws r)"
    by (simp add: sh converted_sheet_cell)
  have "hyperlink (converted_cell ?hf (cell_at ws r)) = Some (link_target (strip v))"
    and "cell_font (converted_cell ?hf (cell_at ws r)) = ?hf"
    using converted_cell_link [of "cell_at ws r" ?hf] ne assms(4)
    by (simp_all add: t detect_strip)
  with res cell show ?thesis
    by (auto simp: link_target_def detect_strip format_website_url_strip)
qed

text \<open>
  C3, as amended: for a non-empty cell value \<open>v\<close> in a processed row, the conversion sets the
  hyperlink to \<open>mailto:\<close> followed by the stripped \<open>v\<close> when \<open>v\<close> is classified as Email, and
  to the formatted URL of \<open>v\<close> when it is a Website or LinkedIn value; in both cases it
  sets the font to the configured colour with a single underline and counts one: the
  returned count is the number of processed rows holding a value of one of the three types.
\<close>

theorem convert_column_targets:
  assumes "1 \<le> r" and "int r \<le> total_rows_of cfg ws"
    and "cell_value (cell_at ws r) = Some v" and "v \<noteq> []"
  shows "\<exists>s. convert_column_to_hyperlinks tq cfg ws = Inr s \<and>
    (detect_content_type v = Email \<longrightarrow>
       hyperlink (cell_at (sheet s) r) = Some (''mailto:'' @ strip v) \<and>
       cell_font (cell_at (sheet s) r) =
         \<lparr>color = Some (hyperlink_color cfg), underline = Some ''single''\<rparr>) \<and>
    (detect_content_type v \<in> {Website, LinkedIn} \<longrightarrow>
       hyperlink (cell_at (sheet s) r) = Some (format_website_url v) \<and>
       cell_font (cell_at (sheet s) r) =
         \<lparr>color = Some (hyperlink_color cfg), underline = Some ''single''\<rparr>) \<and>
    converted_count s =
      length (filter (\<lambda>i. case cell_value (cell_at ws i) of None \<Rightarrow> False
                           | Some u \<Rightarrow> detect_content_type u \<in> {Email, LinkedIn, Website})
                [1..<nat (total_rows_of cfg ws + 1)])"
proof -
  from convert_column_result [of tq cfg ws] obtain s where
    res: "convert_column_to_hyperlinks tq cfg ws = Inr s" and
    cnt: "converted_count s =
            length (filter (\<lambda>r. converts (cell_at ws r)) (processed_rows cfg ws))" by blast
  have a: "hyperlink (cell_at (sheet s) r) = Some (''mailto:'' @ strip v) \<and>
           cell_font (cell_at (sheet s) r) = hyperlink_font_of cfg"
    if "detect_content_type v = Email"
    using convert_column_cell [OF assms(1,2,3), of tq] that res by auto
  have b: "hyperlink (cell_at (sheet s) r) = Some (format_website_url v) \<and>
           cell_font (cell_at (sheet s) r) = hyperlink_font_of cfg"
    if "detect_content_type v \<in> {Website, LinkedIn}"
    using convert_column_cell [OF assms(1,2,3), of tq] that res by auto
  have c: "converted_count s =
      length (filter (\<lambda>i. case cell_value (cell_at ws i) of None \<Rightarrow> False
                           | Some u \<Rightarrow> detect_content_type u \<in> {Email, LinkedIn, Website})
                [1..<nat (total_rows_of cfg ws + 1)])"
    unfolding cnt processed_rows_def converts_raw ..
  from res a b c show ?thesis unfolding hyperlink_font_of_def by blast
qed

lemma padded_facts:
  "total_rows_of example_config padded_sheet = 4"
  "cell_value (cell_at padded_sheet 1) = Some '' a@b.co ''"
  "cell_value (cell_at padded_sheet 2) = Some '' LinkedIn.com/in/jo ''"
  "detect_content_type '' a@b.co '' = Email"
  "detect_content_type '' LinkedIn.com/in/jo '' = LinkedIn"
  "detect_content_type ''   '' = Empty"
  "detect_content_type ''plain'' = Text"
  "strip '' a@b.co '' = ''a@b.co''"
  "format_website_url '' LinkedIn.com/in/jo '' = ''https://LinkedIn.com/in/jo''"
  by (simp_all add: padded_sheet_def example_simps eval_simps)

theorem convert_column_targets_witness:
  "\<exists>s. convert_column_to_hyperlinks False example_config padded_sheet = Inr s \<and>
       detect_content_type '' a@b.co '' = Email \<and>
       hyperlink (cell_at (sheet s) 1) = Some ''mailto:a@b.co'' \<and>
       detect_content_type '' LinkedIn.com/in/jo '' = LinkedIn \<and>
       hyperlink (cell_at (sheet s) 2) = Some ''https://LinkedIn.com/in/jo'' \<and>
       cell_font (cell_at (sheet s) 2) = \<lparr>color = Some ''0000FF'', underline = Some ''single''\<rparr> \<and>
       converted_count s = 2"
proof -
  have n: "length (filter (\<lambda>i. case cell_value (cell_at padded_sheet i) of None \<Rightarrow> False
                           | Some u \<Rightarrow> detect_content_type u \<in> {Email, LinkedIn, Website})
                [1..<nat (total_rows_of example_config padded_sheet + 1)]) = 2"
    unfolding padded_facts(1)
    by (simp add: upt_rec padded_sheet_def text_cell_def empty_cell_def padded_facts(4-7))
  from convert_column_targets [of 1 example_config padded_sheet _ False, OF _ _ padded_facts(2)]
  obtain s where
    r: "convert_column_to_hyperlinks False example_config padded_sheet = Inr s" and
    h1: "hyperlink (cell_at (sheet s) 1) = Some (''mailto:'' @ strip '' a@b.co '')" and
    c: "converted_count s = 2"
    unfolding n by (auto simp: padded_facts)
  from convert_column_targets [of 2 example_config padded_sheet _ False, OF _ _ padded_facts(3)]
  obtain s' where
    r': "convert_column_to_hyperlinks False example_config padded_sheet = Inr s'" and
    h2: "hyperlink (cell_at (sheet s') 2) = Some (format_website_url '' LinkedIn.com/in/jo '')" and
    g2: "cell_font (cell_at (sheet s') 2) =
           \<lparr>color = Some (hyperlink_color example_config), underline = Some ''single''\<rparr>"
    by (auto simp: padded_facts)
  from r r' have "s' = s" by simp
  with r h1 h2 g2 c show ?thesis by (simp add: padded_facts example_config_def)
qed

text \<open>
  C3 as stated, with the target \<open>mailto:\<close> followed by the cell value itself, fails for an
  address with whitespace around it: the target is built from the stripped value.
\<close>

theorem mailto_raw_value_counterexample:
  "\<exists>s. convert_column_to_hyperlinks False example_config padded_sheet = Inr s \<and>
       cell_value (cell_at padded_sheet 1) = Some '' a@b.co '' \<and>
       detect_content_type '' a@b.co '' = Email \<and>
       hyperlink (cell_at (sheet s) 1) = Some ''mailto:a@b.co'' \<and>
       hyperlink (cell_at (sheet s) 1) \<noteq> Some (''mailto:'' @ '' a@b.co '')"
proof -
  from convert_column_cell [of 1 example_config padded_sheet _ False, OF _ _ padded_facts(2)]
  obtain s where
    "convert_column_to_hyperlinks False example_config padded_sheet = Inr s"
    "hyperlink (cell_at (sheet s) 1) = Some (''mailto:'' @ strip '' a@b.co '')"
    by (auto simp: padded_facts)
  then show ?thesis using padded_facts(2,4,8) by simp
qed

text \<open>
  C4: with a positive row cap, the returned count is at most the smaller of the row extent
  and the cap.
\<close>

theorem converted_count_bound:
  assumes "0 < max_rows_to_process cfg"
  shows "\<exists>s. convert_column_to_hyperlinks tq cfg ws = Inr s \<and>
             int (converted_count s) \<le> min (int (max_row ws)) (max_rows_to_process cfg)"
proof -
  from convert_column_result [of tq cfg ws] obtain s where
    res: "convert_column_to_hyperlinks tq cfg ws = Inr s" and
    cnt: "converted_count s =
            length (filter (\<lambda>r. converts (cell_at ws r)) (processed_rows cfg ws))" by blast
  have "converted_count s \<le> length (processed_rows cfg ws)"
    unfolding cnt by (rule length_filter_le)
  then have "int (converted_count s) \<le> max 0 (total_rows_of cfg ws)"
    using length_processed_rows [of cfg ws] by linarith
  also have "\<dots> = min (int (max_row ws)) (max_rows_to_process cfg)"
    using assms by (simp add: total_rows_of_def)
  finally show ?thesis using res by blast
qed

theorem converted_count_bound_witness:
  "0 < max_rows_to_process capped_config \<and>
   (\<exists>s. convert_column_to_hyperlinks True capped_config example_sheet = Inr s \<and>
        int (converted_count s) \<le> 2)"
proof -
  have h: "0 < max_rows_to_process capped_config" by (simp add: capped_config_def)
  from converted_count_bound [OF h, of True example_sheet] h show ?thesis
    by (simp add: capped_config_def example_sheet_def)
qed

text \<open>
  C9: with the progress bar and with plain printing the conversion returns, and returns the
  same worksheet (every cell's value, hyperlink and font) and the same count.
\<close>

theorem progress_paths_agree:
  "\<exists>s1 s2. convert_column_to_hyperlinks True cfg ws = Inr s1 \<and>
           convert_column_to_hyperlinks False cfg ws = Inr s2 \<and>
           sheet s1 = sheet s2 \<and> converted_count s1 = converted_count s2"
proof -
  from convert_column_result [of True cfg ws] obtain s1 where
    "convert_column_to_hyperlinks True cfg ws = Inr s1"
    "sheet s1 = converted_sheet (hyperlink_font_of cfg) (processed_rows cfg ws) ws"
    "converted_count s1 = length (filter (\<lambda>r. converts (cell_at ws r)) (processed_rows cfg ws))"
    by blast
  moreover from convert_column_result [of False cfg ws] obtain s2 where
    "convert_column_to_hyperlinks False cfg ws = Inr s2"
    "sheet s2 = converted_sheet (hyperlink_font_of cfg) (processed_rows cfg ws) ws"
    "converted_count s2 = length (filter (\<lambda>r. converts (cell_at ws r)) (processed_rows cfg ws))"
    by blast
  ultimately show ?thesis by simp
qed

text \<open>
  C10: a value whose stripped, lowercased form contains one of the known domain extensions
  is classified as Email, LinkedIn or Website, never Text, and a cell holding it in a
  processed row comes out of the conversion with a hyperlink.
\<close>

theorem known_extension_never_text:
  assumes "list_ex (\<lambda>ext. sublist ext (lower (strip x))) common_domains"
  shows "detect_content_type x \<in> {Email, LinkedIn, Website} \<and>
    (\<forall>tq cfg ws r.
       cell_value (cell_at ws r) = Some x \<and> 1 \<le> r \<and> int r \<le> total_rows_of cfg ws \<longrightarrow>
       (\<exists>s. convert_column_to_hyperlinks tq cfg ws = Inr s \<and>
            hyperlink (cell_at (sheet s) r) =
              Some (if detect_content_type x = Email then ''mailto:'' @ strip x
                    else format_website_url (strip x))))"
proof -
  from assms have d: "detect_content_type x \<in> {Email, LinkedIn, Website}"
    by (rule tld_never_text)
  then have ne: "strip x \<noteq> []" by (auto simp: detect_content_type_def Let_def)
  have "\<exists>s. convert_column_to_hyperlinks tq cfg ws = Inr s \<and>
            hyperlink (cell_at (sheet s) r) =
              Some (if detect_content_type x = Email then ''mailto:'' @ strip x
                    else format_website_url (strip x))"
    if v: "cell_value (cell_at ws r) = Some x" and r: "1 \<le> r" "int r \<le> total_rows_of cfg ws"
    for tq cfg ws r
  proof -
    from v have t: "cell_text (cell_at ws r) = strip x" by (rule cell_text_Some)
    from convert_column_result [of tq cfg ws] obtain s where
      res: "convert_column_to_hyperlinks tq cfg ws = Inr s" and
      sh: "sheet s = converted_sheet (hyperlink_font_of cfg) (processed_rows cfg ws) ws" by blast
    from r have "r \<in> set (processed_rows cfg ws)" by (simp add: processed_rows_iff)
    then have "cell_at (sheet s) r = converted_cell (hyperlink_font_of cfg) (cell_at ws r)"
      by (simp add: sh converted_sheet_cell)
    moreover have "hyperlink (converted_cell (hyperlink_font_of cfg) (cell_at ws r)) =
        Some (link_target (cell_text (cell_at ws r)))"
      using ne d by (intro converted_cell_link) (simp_all add: t detect_strip)
    ultimately show ?thesis using res by (auto simp: t link_target_def detect_strip)
  qed
  with d show ?thesis by blast
qed

theorem known_extension_never_text_witness:
  "list_ex (\<lambda>ext. sublist ext (lower (strip ''see notes.in today''))) common_domains \<and>
   detect_content_type ''see notes.in today'' = Website \<and>
   (\<exists>s. convert_column_to_hyperlinks True example_config notes_sheet = Inr s \<and>
        hyperlink (cell_at (sheet s) 1) = Some ''https://see notes.in today'')"
proof -
  have h: "list_ex (\<lambda>ext. sublist ext (lower (strip ''see notes.in today''))) common_domains"
    by (simp add: eval_simps)
  have d: "detect_content_type ''see notes.in today'' = Website" by (simp add: eval_simps)
  have f: "format_website_url (strip ''see notes.in today'') = ''https://see notes.in today''"
    by (simp add: eval_simps)
  have c: "cell_value (cell_at notes_sheet 1) = Some ''see notes.in today'' \<and> (1::nat) \<le> 1 \<and>
           int 1 \<le> total_rows_of example_config notes_sheet"
    by (simp add: notes_sheet_def example_simps)
  from known_extension_never_text [OF h] c
  have "\<exists>s. convert_column_to_hyperlinks True example_config notes_sheet = Inr s \<and>
            hyperlink (cell_at (sheet s) 1) =
              Some (if detect_content_type ''see notes.in today'' = Email
                    then ''mailto:'' @ strip ''see notes.in today''
                    else format_website_url (strip ''see notes.in today''))"
    by blast
  with h d f show ?thesis by simp
qed

section \<open>The column analysis\<close>

lemma dict_get_update:
  "dict_get (AList.update k v d) k' dflt = (if k' = k then v else dict_get d k' dflt)"
  by (simp add: dict_get_def update_conv')

lemma tally_row_get:
  "dict_get (tally_row ws d r) t 0 = dict_get d t 0 + count_rows ws t [r]"
  by (simp add: tally_row_def Let_def dict_get_update count_rows_def)

lemma tally_row_keys:
  "fst ` set (tally_row ws d r) = fst ` set d \<union> {t. 0 < count_rows ws t [r]}"
  by (auto simp: tally_row_def Let_def dom_update count_rows_def)

lemma tally_row_distinct: "distinct (map fst d) \<Longrightarrow> distinct (map fst (tally_row ws d r))"
  by (simp add: tally_row_def Let_def distinct_update)

lemma count_rows_Cons: "count_rows ws t (r # rows) = count_rows ws t [r] + count_rows ws t rows"
  by (simp add: count_rows_def)

lemma tally_loop:
  "dict_get (foldl (tally_row ws) d rows) t 0 = dict_get d t 0 + count_rows ws t rows \<and>
   fst ` set (foldl (tally_row ws) d rows) = fst ` set d \<union> {t. 0 < count_rows ws t rows} \<and>
   (distinct (map fst d) \<longrightarrow> distinct (map fst (foldl (tally_row ws) d rows)))"
proof (induction rows arbitrary: d)
  case Nil
  show ?case by (simp add: count_rows_def)
next
  case (Cons r rows)
  have k: "{t. 0 < count_rows ws t (r # rows)} =
           {t. 0 < count_rows ws t [r]} \<union> {t. 0 < count_rows ws t rows}"
    by (auto simp: count_rows_Cons [of ws _ r rows])
  show ?case
    using Cons [of "tally_row ws d r"]
    by (simp add: tally_row_get tally_row_keys tally_row_distinct k Un_assoc
        count_rows_Cons [of ws t r rows])
qed

lemma max_fold:
  fixes b :: "'k \<times> nat"
  shows "foldl (\<lambda>best it. if snd best < snd it then it else best) b xs \<in> set (b # xs) \<and>
   (\<forall>it \<in> set (b # xs). snd it \<le> snd (foldl (\<lambda>best it. if snd best < snd it then it else best) b xs))"
proof (induction xs arbitrary: b)
  case Nil
  show ?case by simp
next
  case (Cons x xs)
  let ?f = "\<lambda>best it. if snd best < (snd it :: nat) then it else best"
  show ?case
  proof (cases "snd b < snd x")
    case True
    with Cons [of x] show ?thesis by (auto intro: less_imp_le order_trans)
  next
    case False
    with Cons [of b] show ?thesis by (auto intro: order_trans)
  qed
qed

lemma max_by_count_props:
  "max_by_count first rest \<in> set (first # rest) \<and>
   (\<forall>it \<in> set (first # rest). snd it \<le> snd (max_by_count first rest))"
  unfolding max_by_count_def by (rule max_fold)

lemma dict_get_member:
  "distinct (map fst d) \<Longrightarrow> (k, v) \<in> set d \<Longrightarrow> dict_get d k dflt = v"
  by (simp add: dict_get_def)

lemma dict_get_key: "k \<in> fst ` set d \<Longrightarrow> (k, dict_get d k dflt) \<in> set d"
  by (auto simp: dict_get_def map_of_eq_None_iff split: option.splits dest: map_of_SomeD)

lemma tally_of_rows:
  "tally_of (filter (\<lambda>v. \<not> list_all isspace v)
              (List.map_filter (\<lambda>r. cell_value (cell_at ws r)) rows)) t =
   count_rows ws t rows"
proof (induction rows)
  case Nil
  show ?case by (simp add: tally_of_def count_rows_def map_filter_simps)
next
  case (Cons r rows)
  show ?case
  proof (cases "cell_value (cell_at ws r)")
    case None
    then have "cell_text (cell_at ws r) = []" by (simp add: cell_text_def)
    with None Cons show ?thesis
      by (simp add: map_filter_simps count_rows_Cons [of ws t r rows]) (simp add: count_rows_def)
  next
    case (Some v)
    then have t: "cell_text (cell_at ws r) = strip v" by (rule cell_text_Some)
    have "count_rows ws t [r] =
            (if \<not> list_all isspace v \<and> detect_content_type v = t then 1 else 0)"
      by (simp add: count_rows_def t strip_eq_Nil detect_strip)
    with Some Cons show ?thesis
      by (simp add: map_filter_simps count_rows_Cons [of ws t r rows])
         (simp add: tally_of_def)
  qed
qed

lemma tally_count_rows: "tally ws t = count_rows ws t [1..<min 100 (max_row ws) + 1]"
  by (simp add: tally_def nonblank_values_def sampled_cell_values_def tally_of_rows)

lemma analyze_column_cases:
  "(\<forall>t. tally ws t = 0) \<and> analyze_column ws = (Unknown, 0) \<or>
   (\<exists>t. analyze_column ws = (t, tally ws t) \<and> 0 < tally ws t \<and> (\<forall>t'. tally ws t' \<le> tally ws t))"
proof -
  define rows where "rows = [1..<min 100 (max_row ws) + 1]"
  define D where "D = foldl (tally_row ws) [] rows"
  have get: "dict_get D t 0 = tally ws t" for t
    using tally_loop [of ws "[]" rows t] by (simp add: D_def rows_def tally_count_rows dict_get_def)
  have keys: "fst ` set D = {t. 0 < tally ws t}"
    using tally_loop [of ws "[]" rows] by (simp add: D_def rows_def tally_count_rows)
  have dist: "distinct (map fst D)"
    using tally_loop [of ws "[]" rows] by (simp add: D_def)
  have an: "analyze_column ws = (case D of [] \<Rightarrow> (Unknown, 0) | first # rest \<Rightarrow> max_by_count first rest)"
    by (simp add: analyze_column_def Let_def D_def rows_def)
  show ?thesis
  proof (cases D)
    case Nil
    with keys have "\<forall>t. tally ws t = 0" by auto
    with Nil an show ?thesis by simp
  next
    case (Cons first rest)
    obtain t n where m: "max_by_count first rest = (t, n)" by (cases "max_by_count first rest")
    from max_by_count_props [of first rest] m Cons
    have mem: "(t, n) \<in> set D" and mx: "\<forall>it \<in> set D. snd it \<le> n" by auto
    from dist mem have "dict_get D t 0 = n" by (rule dict_get_member)
    then have n: "n = tally ws t" by (simp add: get)
    from mem keys have pos: "0 < tally ws t" by force
    have "tally ws t' \<le> tally ws t" for t'
    proof (cases "0 < tally ws t'")
      case True
      then have "t' \<in> fst ` set D" by (simp add: keys)
      then have "(t', dict_get D t' 0) \<in> set D" by (rule dict_get_key)
      with mx have "dict_get D t' 0 \<le> n" by auto
      then show ?thesis by (simp add: get n)
    next
      case False
      then show ?thesis by simp
    qed
    with an Cons m n pos show ?thesis by auto
  qed
qed

lemma nonblank_values_Nil: "nonblank_values ws = [] \<longleftrightarrow> (\<forall>t. tally ws t = 0)"
proof
  assume "nonblank_values ws = []"
  then show "\<forall>t. tally ws t = 0" by (simp add: tally_def tally_of_def)
next
  assume z: "\<forall>t. tally ws t = 0"
  show "nonblank_values ws = []"
  proof (cases "nonblank_values ws")
    case Nil
    then show ?thesis .
  next
    case (Cons v vs)
    then have "0 < tally ws (detect_content_type v)" by (simp add: tally_def tally_of_def)
    with z show ?thesis by simp
  qed
qed

text \<open>
  C6, as amended: the analysis looks at the cell values of the first \<open>min(100, max_row)\<close>
  rows only and tallies the types of those that are not blank (not empty and not only
  whitespace). With no such value it returns Unknown and 0; otherwise it returns a type
  together with its tally, and no type has a larger tally. A type whose tally is strictly
  the largest is the one returned.
\<close>

theorem analyze_column_majority:
  "(nonblank_values ws = [] \<longrightarrow> analyze_column ws = (Unknown, 0)) \<and>
   (nonblank_values ws \<noteq> [] \<longrightarrow>
      (\<exists>t. analyze_column ws = (t, tally ws t) \<and> 0 < tally ws t \<and>
           (\<forall>t'. tally ws t' \<le> tally ws t))) \<and>
   (\<forall>t. (\<forall>t'. t' \<noteq> t \<longrightarrow> tally ws t' < tally ws t) \<longrightarrow> fst (analyze_column ws) = t)"
proof -
  note c = analyze_column_cases [of ws]
  have 1: "analyze_column ws = (Unknown, 0)" if "nonblank_values ws = []"
    using c that by (auto simp: nonblank_values_Nil)
  have 2: "\<exists>t. analyze_column ws = (t, tally ws t) \<and> 0 < tally ws t \<and>
            (\<forall>t'. tally ws t' \<le> tally ws t)" if "nonblank_values ws \<noteq> []"
    using c that by (auto simp: nonblank_values_Nil)
  have 3: "fst (analyze_column ws) = t" if s: "\<forall>t'. t' \<noteq> t \<longrightarrow> tally ws t' < tally ws t" for t
  proof -
    obtain u where "u \<noteq> t" by (cases t) auto
    with s have "0 < tally ws t" by (metis gr_zeroI not_less_zero)
    then have "nonblank_values ws \<noteq> []" by (auto simp: nonblank_values_Nil)
    from 2 [OF this] obtain t0 where
      a: "analyze_column ws = (t0, tally ws t0)" and m: "\<forall>t'. tally ws t' \<le> tally ws t0" by blast
    have "t0 = t"
    proof (rule ccontr)
      assume "t0 \<noteq> t"
      with s have "tally ws t0 < tally ws t" by simp
      with m show False by (simp add: not_less [symmetric])
    qed
    with a show ?thesis by simp
  qed
  from 1 2 3 show ?thesis by blast
qed

theorem analyze_column_majority_witness:
  "nonblank_values scenario_sheet = [''a@b.com'', ''c@d.com'', ''notes''] \<and>
   analyze_column scenario_sheet = (Email, 2) \<and>
   tally scenario_sheet Email = 2 \<and> tally scenario_sheet Text = 1 \<and>
   nonblank_values spaces_sheet = [] \<and> analyze_column spaces_sheet = (Unknown, 0)"
proof -
  have v: "nonblank_values scenario_sheet = [''a@b.com'', ''c@d.com'', ''notes'']"
    by (simp add: nonblank_values_def sampled_cell_values_def scenario_sheet_def example_simps
        upt_rec map_filter_simps isspace_def)
  have t: "tally scenario_sheet Email = 2" "tally scenario_sheet Text = 1"
    "tally scenario_sheet Empty = 0" "tally scenario_sheet LinkedIn = 0"
    "tally scenario_sheet Website = 0" "tally scenario_sheet Unknown = 0"
    unfolding tally_def tally_of_def v by (simp_all add: eval_simps)
  have b: "nonblank_values spaces_sheet = []"
    by (simp add: nonblank_values_def sampled_cell_values_def spaces_sheet_def example_simps
        upt_rec map_filter_simps isspace_def)
  have strict: "\<forall>t'. t' \<noteq> Email \<longrightarrow> tally scenario_sheet t' < tally scenario_sheet Email"
  proof (intro allI impI)
    fix t' :: content_type assume "t' \<noteq> Email"
    then show "tally scenario_sheet t' < tally scenario_sheet Email"
      using t by (cases t') simp_all
  qed
  from analyze_column_majority [of scenario_sheet] v strict
  have "\<exists>t. analyze_column scenario_sheet = (t, tally scenario_sheet t)"
    and "fst (analyze_column scenario_sheet) = Email" by auto
  then have "analyze_column scenario_sheet = (Email, 2)" using t by auto
  moreover from analyze_column_majority [of spaces_sheet] b
  have "analyze_column spaces_sheet = (Unknown, 0)" by blast
  ultimately show ?thesis using v t b by simp
qed

text \<open>
  C6 as stated, with the tally over the non-empty values, fails for a column of spaces: a
  non-empty value is sampled and its type Empty has tally 1, yet the analysis returns
  Unknown and 0.
\<close>

theorem whitespace_only_column_counterexample:
  "nonempty_values spaces_sheet = [''  ''] \<and>
   tally_of (nonempty_values spaces_sheet) Empty = 1 \<and>
   analyze_column spaces_sheet = (Unknown, 0)"
proof -
  have v: "nonempty_values spaces_sheet = [''  '']"
    by (simp add: nonempty_values_def sampled_cell_values_def spaces_sheet_def example_simps
        upt_rec map_filter_simps)
  have t: "tally_of [''  ''] Empty = 1" by (simp add: tally_of_def eval_simps)
  have "\<forall>t. tally spaces_sheet t = 0"
    by (simp add: tally_def tally_of_def nonblank_values_def sampled_cell_values_def
        spaces_sheet_def example_simps upt_rec map_filter_simps isspace_def)
  with analyze_column_cases [of spaces_sheet] have "analyze_column spaces_sheet = (Unknown, 0)"
    by auto
  with v t show ?thesis by simp
qed

section \<open>Batch processing of a folder\<close>

lemma calls_append: "calls (xs @ ys) = calls xs @ calls ys"
  by (simp add: calls_def)

lemma calls_file_events: "calls (file_events tq process n item) = [snd item]"
  by (simp add: calls_def file_events_def split: outcome.splits)

lemma calls_concat_file_events:
  "calls (concat (map (file_events tq process n) items)) = map snd items"
  by (induction items) (simp_all add: calls_def [of "[]"] calls_append calls_file_events)

lemma batch_step_Inr:
  assumes "tq \<or> n \<noteq> 0"
  shows "batch_step tq process n item s =
     Inr (s\<lparr>success_count := success_count s + length (succeeded process [snd item]),
            events := events s @ file_events tq process n item\<rparr>)"
  using assms
  by (cases "process (snd item)")
     (auto simp: batch_step_def Let_def floordiv_def file_events_def succeeded_def)

lemma batch_loop:
  assumes "tq \<or> n \<noteq> 0"
  shows "for_each (batch_step tq process n) items s =
     Inr (s\<lparr>success_count := success_count s + length (succeeded process (map snd items)),
            events := events s @ concat (map (file_events tq process n) items)\<rparr>)"
proof (induction items arbitrary: s)
  case Nil
  show ?case by (simp add: succeeded_def)
next
  case (Cons item items)
  define s1 where "s1 = s\<lparr>success_count := success_count s + length (succeeded process [snd item]),
            events := events s @ file_events tq process n item\<rparr>"
  have step: "batch_step tq process n item s = Inr s1"
    unfolding s1_def by (rule batch_step_Inr [OF assms])
  have "for_each (batch_step tq process n) (item # items) s =
        for_each (batch_step tq process n) items s1"
    by (simp only: for_each.simps step sum.case)
  also have "\<dots> = Inr (s1\<lparr>success_count := success_count s1 + length (succeeded process (map snd items)),
            events := events s1 @ concat (map (file_events tq process n) items)\<rparr>)"
    by (rule Cons)
  also have "\<dots> = Inr (s\<lparr>success_count :=
                success_count s + length (succeeded process (map snd (item # items))),
            events := events s @ concat (map (file_events tq process n) (item # items))\<rparr>)"
    by (simp add: s1_def succeeded_def)
  finally show ?case .
qed

lemma batch_process_folder_found:
  assumes "path_exists fs p" and "listdir fs p = Inr files"
    and "excel_files_of exts p files \<noteq> []"
  shows "\<exists>s. batch_process_folder tq exts fs process p =
               Inr (0 < length (succeeded process (excel_files_of exts p files)), s) \<and>
             success_count s = length (succeeded process (excel_files_of exts p files)) \<and>
             calls (events s) = excel_files_of exts p files \<and>
             (\<forall>f e. f \<in> set (excel_files_of exts p files) \<and> process f = Raises e \<longrightarrow>
                    Log_error_exception f e \<in> set (events s))"
proof -
  define xs where "xs = excel_files_of exts p files"
  define n where "n = length xs"
  define items where "items = zip [0..<n] xs"
  define s0 where
    "s0 = \<lparr>success_count = 0, events = Found_files n # (if tq then [] else [Print_starting])\<rparr>"
  define evs where "evs = concat (map (file_events tq process n) items)"
  define s where "s = s0\<lparr>success_count := success_count s0 + length (succeeded process xs),
            events := events s0 @ evs\<rparr>"
  from assms(3) have n: "tq \<or> n \<noteq> 0" by (simp add: n_def xs_def)
  have sn: "map snd items = xs" by (simp add: items_def n_def map_snd_zip)
  have loop: "for_each (batch_step tq process n) items s0 = Inr s"
    unfolding s_def evs_def sn [symmetric] by (rule batch_loop [OF n])
  have unf: "batch_process_folder tq exts fs process p =
      (case for_each (batch_step tq process n) items s0 of
         Inl e \<Rightarrow> Inl e
       | Inr s \<Rightarrow> Inr (0 < success_count s, s\<lparr>events := events s @ [Completed (success_count s) n]\<rparr>))"
    using assms
    unfolding batch_process_folder_def Let_def excel_files_of_def xs_def n_def items_def s0_def
    by simp
  have res: "batch_process_folder tq exts fs process p =
      Inr (0 < success_count s, s\<lparr>events := events s @ [Completed (success_count s) n]\<rparr>)"
    by (simp only: unf loop sum.case)
  have cnt: "success_count s = length (succeeded process xs)" by (simp add: s_def s0_def)
  have c0: "calls (events s0) = []" by (simp add: s0_def calls_def)
  have "calls evs = xs"
    unfolding evs_def calls_concat_file_events by (rule sn)
  then have c: "calls (events s @ [Completed (success_count s) n]) = xs"
    by (simp add: s_def calls_append c0) (simp add: calls_def)
  have l: "Log_error_exception f e \<in> set (events s)"
    if "f \<in> set xs" "process f = Raises e" for f e
  proof -
    from that(1) have "f \<in> set (map snd items)" by (simp only: sn)
    then obtain item where i: "item \<in> set items" "snd item = f" by auto
    with that(2) have "Log_error_exception f e \<in> set (file_events tq process n item)"
      by (simp add: file_events_def)
    with i(1) have "Log_error_exception f e \<in> set evs" unfolding evs_def by auto
    then show ?thesis by (simp add: s_def)
  qed
  let ?s = "s\<lparr>events := events s @ [Completed (success_count s) n]\<rparr>"
  have "batch_process_folder tq exts fs process p = Inr (0 < length (succeeded process xs), ?s)"
    by (simp add: res cnt)
  moreover have "success_count ?s = length (succeeded process xs)" by (simp add: cnt)
  moreover have "calls (events ?s) = xs" using c by simp
  moreover have "\<forall>f e. f \<in> set xs \<and> process f = Raises e \<longrightarrow>
      Log_error_exception f e \<in> set (events ?s)" using l by simp
  ultimately show ?thesis unfolding xs_def by blast
qed

lemma process_single_file_returns: "\<exists>ok. process_single_file try_body f = Returns ok"
  by (cases "try_body f") (auto simp: process_single_file_def)

text \<open>
  When the folder does not exist, and when the listing succeeds: for a missing folder, and
  for a listing with no file of a supported extension, the batch returns False with the
  report in its events, raises nothing and processes nothing. Otherwise every eligible file
  is handed to \<open>process_single_file\<close>, in listing order, whatever the earlier files did; an
  exception of a file is logged and does not count as a success; and the result is True
  exactly when some file returned True.
\<close>

theorem batch_process_folder_outcomes:
  "(\<not> path_exists fs p \<longrightarrow>
      (\<exists>s. batch_process_folder tq exts fs process p = Inr (False, s) \<and>
           Log_error_folder_not_found p \<in> set (events s) \<and> calls (events s) = [])) \<and>
   (path_exists fs p \<and> listdir fs p = Inr files \<and> excel_files_of exts p files = [] \<longrightarrow>
      (\<exists>s. batch_process_folder tq exts fs process p = Inr (False, s) \<and>
           Print_no_files \<in> set (events s) \<and> calls (events s) = [])) \<and>
   (path_exists fs p \<and> listdir fs p = Inr files \<and> excel_files_of exts p files \<noteq> [] \<longrightarrow>
      (\<exists>ok s. batch_process_folder tq exts fs process p = Inr (ok, s) \<and>
           calls (events s) = excel_files_of exts p files \<and>
           success_count s = length (succeeded process (excel_files_of exts p files)) \<and>
           (\<forall>f e. f \<in> set (excel_files_of exts p files) \<and> process f = Raises e \<longrightarrow>
                  Log_error_exception f e \<in> set (events s)) \<and>
           (ok \<longleftrightarrow> (\<exists>f \<in> set (excel_files_of exts p files). process f = Returns True))))"
proof -
  have 1: "\<exists>s. batch_process_folder tq exts fs process p = Inr (False, s) \<and>
           Log_error_folder_not_found p \<in> set (events s) \<and> calls (events s) = []"
    if "\<not> path_exists fs p"
    using that by (simp add: batch_process_folder_def calls_def)
  have 2: "\<exists>s. batch_process_folder tq exts fs process p = Inr (False, s) \<and>
           Print_no_files \<in> set (events s) \<and> calls (events s) = []"
    if "path_exists fs p" "listdir fs p = Inr files" "excel_files_of exts p files = []"
    using that by (simp add: batch_process_folder_def excel_files_of_def calls_def)
  have 3: "\<exists>ok s. batch_process_folder tq exts fs process p = Inr (ok, s) \<and>
           calls (events s) = excel_files_of exts p files \<and>
           success_count s = length (succeeded process (excel_files_of exts p files)) \<and>
           (\<forall>f e. f \<in> set (excel_files_of exts p files) \<and> process f = Raises e \<longrightarrow>
                  Log_error_exception f e \<in> set (events s)) \<and>
           (ok \<longleftrightarrow> (\<exists>f \<in> set (excel_files_of exts p files). process f = Returns True))"
    if h: "path_exists fs p" "listdir fs p = Inr files" "excel_files_of exts p files \<noteq> []"
  proof -
    have "0 < length (succeeded process (excel_files_of exts p files)) \<longleftrightarrow>
          (\<exists>f \<in> set (excel_files_of exts p files). process f = Returns True)"
      by (auto simp: succeeded_def filter_empty_conv)
    moreover from batch_process_folder_found [OF h, of tq process] obtain s where
      "batch_process_folder tq exts fs process p =
         Inr (0 < length (succeeded process (excel_files_of exts p files)), s)"
      "success_count s = length (succeeded process (excel_files_of exts p files))"
      "calls (events s) = excel_files_of exts p files"
      "\<forall>f e. f \<in> set (excel_files_of exts p files) \<and> process f = Raises e \<longrightarrow>
             Log_error_exception f e \<in> set (events s)" by blast
    ultimately show ?thesis by (intro exI conjI) assumption+
  qed
  from 1 2 3 show ?thesis by blast
qed

theorem batch_process_folder_outcomes_witness:
  "\<not> path_exists example_fs ''missing'' \<and>
   (\<exists>s. batch_process_folder False default_extensions example_fs example_process ''missing'' =
          Inr (False, s) \<and> calls (events s) = []) \<and>
   excel_files_of default_extensions ''empty'' [''readme.md''] = [] \<and>
   (\<exists>s. batch_process_folder False default_extensions example_fs example_process ''empty'' =
          Inr (False, s) \<and> calls (events s) = []) \<and>
   example_process ''data/bad.xlsx'' = Raises ''corrupt'' \<and>
   (\<exists>s. batch_process_folder False default_extensions example_fs example_process ''data'' =
          Inr (True, s) \<and>
        calls (events s) = [''data/a.xlsx'', ''data/bad.xlsx'', ''data/C.XLSM''] \<and>
        success_count s = 2 \<and>
        Log_error_exception ''data/bad.xlsx'' ''corrupt'' \<in> set (events s))"
proof -
  let ?files = "[''a.xlsx'', ''bad.xlsx'', ''notes.txt'', ''C.XLSM'']"
  have e1: "\<not> path_exists example_fs ''missing''" by (simp add: example_fs_def)
  have e2: "path_exists example_fs ''empty''" "listdir example_fs ''empty'' = Inr [''readme.md'']"
    by (simp_all add: example_fs_def)
  have x2: "excel_files_of default_extensions ''empty'' [''readme.md''] = []"
    by (simp add: excel_files_of_def is_excel_file_def default_extensions_def suffix_to_prefix
        lower_def lower_char_def char_of_def bit_Suc_0_iff)
  have e3: "path_exists example_fs ''data''" "listdir example_fs ''data'' = Inr ?files"
    by (simp_all add: example_fs_def)
  have x3: "excel_files_of default_extensions ''data'' ?files =
              [''data/a.xlsx'', ''data/bad.xlsx'', ''data/C.XLSM'']"
    by (simp add: excel_files_of_def is_excel_file_def default_extensions_def path_join_def
        suffix_to_prefix lower_def lower_char_def char_of_def bit_Suc_0_iff)
  have p: "example_process ''data/bad.xlsx'' = Raises ''corrupt''"
    "example_process ''data/a.xlsx'' = Returns True" "example_process ''data/C.XLSM'' = Returns True"
    by (simp_all add: example_process_def)
  have su: "length (succeeded example_process
              [''data/a.xlsx'', ''data/bad.xlsx'', ''data/C.XLSM'']) = 2"
    by (simp add: succeeded_def p)
  note th = batch_process_folder_outcomes [of example_fs _ False default_extensions example_process]
  from th [of "''missing''" "[]"] e1
  have 1: "\<exists>s. batch_process_folder False default_extensions example_fs example_process ''missing'' =
          Inr (False, s) \<and> calls (events s) = []" by blast
  from th [of "''empty''" "[''readme.md'']"] e2 x2
  have 2: "\<exists>s. batch_process_folder False default_extensions example_fs example_process ''empty'' =
          Inr (False, s) \<and> calls (events s) = []" by blast
  from th [of "''data''" ?files] e3 x3 obtain ok s where
    r: "batch_process_folder False default_extensions example_fs example_process ''data'' = Inr (ok, s)"
    and c: "calls (events s) = [''data/a.xlsx'', ''data/bad.xlsx'', ''data/C.XLSM'']"
    and n: "success_count s =
              length (succeeded example_process [''data/a.xlsx'', ''data/bad.xlsx'', ''data/C.XLSM''])"
    and l: "\<forall>f e. f \<in> set [''data/a.xlsx'', ''data/bad.xlsx'', ''data/C.XLSM''] \<and>
              example_process f = Raises e \<longrightarrow> Log_error_exception f e \<in> set (events s)"
    and o: "ok \<longleftrightarrow> (\<exists>f \<in> set [''data/a.xlsx'', ''data/bad.xlsx'', ''data/C.XLSM''].
              example_process f = Returns True)"
    by auto
  from o p have "ok" by simp
  moreover from l p(1) have "Log_error_exception ''data/bad.xlsx'' ''corrupt'' \<in> set (events s)"
    by simp
  ultimately have 3: "\<exists>s. batch_process_folder False default_extensions example_fs example_process ''data'' =
          Inr (True, s) \<and>
        calls (events s) = [''data/a.xlsx'', ''data/bad.xlsx'', ''data/C.XLSM''] \<and>
        success_count s = 2 \<and>
        Log_error_exception ''data/bad.xlsx'' ''corrupt'' \<in> set (events s)"
    using r c n su by auto
  from e1 1 x2 2 p(1) 3 show ?thesis by blast
qed

lemma batch_process_folder_listdir_error:
  "path_exists fs p \<Longrightarrow> listdir fs p = Inl e \<Longrightarrow>
     batch_process_folder tq exts fs process p = Inl e"
  by (simp add: batch_process_folder_def)

text \<open>
  C8: a folder that cannot be processed is to be reported without an exception leaving
  the batch function. The program guards the listing with \<open>os.path.exists\<close> only: for a path
  that exists and names a regular file, \<open>os.listdir\<close> raises, nothing catches it, and the
  call ends with that exception instead of a report and a result.
\<close>

theorem batch_process_folder_listdir_raises:
  "path_exists regular_file_fs ''report.xlsx'' \<and>
   batch_process_folder False default_extensions regular_file_fs example_process ''report.xlsx'' =
     Inl NotADirectoryError"
  by (simp add: batch_process_folder_def regular_file_fs_def)

end
